theory Spec2Isabelle
  imports Main "HOL-Library.Multiset" "HOL-Library.Monad_Syntax"
begin

section \<open>The min-heap of \<open>include/linux/min_heap.h\<close>\<close>

text \<open>
  \<open>struct __min_heap\<close> holds a pointer to the caller's buffer, the number \<open>nr\<close> of live
  elements and the capacity \<open>size\<close>. The buffer is modelled as a list of elements (one list
  entry per slot of \<open>elem_size\<close> bytes), so \<open>data + i * elem_size\<close> is slot \<open>i\<close> of the
  list. The C fields \<open>nr\<close> and \<open>size\<close> and the indices \<open>pos\<close>, \<open>i\<close> and \<open>j\<close> are \<open>int\<close>s that
  the data model keeps non-negative; they are natural numbers here, and the index
  arithmetic is the mathematical one. It agrees with the arithmetic on \<open>int\<close> as long as
  \<open>i * 2 + 2\<close> does not exceed \<open>INT_MAX\<close> for any index \<open>i < nr\<close>, that is, as long as
  \<open>2 * size \<le> INT_MAX\<close>; this bound is part of the well-formedness of a heap (\<open>wf_heap\<close>
  below), which every theorem about the repair of a non-empty heap assumes.
  The field \<open>size\<close> is called \<open>size_h\<close>, since \<open>size\<close> is a constant of HOL.
\<close>

definition INT_MAX :: nat where
  "INT_MAX = 2147483647"

record 'a min_heap =
  data :: "'a list"
  nr :: nat
  size_h :: nat

text \<open>
  \<open>struct min_heap_callbacks\<close>: the order \<open>less\<close> is a parameter of every operation, written
  \<open>lessf\<close> (\<open>less\<close> is a constant of HOL); it compares the contents of two slots.
\<close>

text \<open>
  Modelled from the spec: the caller's \<open>swp\<close> callback, which the header only declares;
  it exchanges the contents of the two slots it is given.
\<close>

definition swp :: "'a list \<Rightarrow> nat \<Rightarrow> nat \<Rightarrow> 'a list" where
  "swp xs i j = xs[i := xs ! j, j := xs ! i]"

subsection \<open>Sifting down: \<open>__min_heapify\<close>\<close>

text \<open>
  The first loop: find the sift-down path all the way to the leaves. The source computes
  \<open>i * 2 + 2\<close> in \<open>int\<close>; the natural number here is the same value on a well-formed heap
  (\<open>descent_in_int_range\<close> below).
\<close>

function descend :: "('a \<Rightarrow> 'a \<Rightarrow> bool) \<Rightarrow> 'a list \<Rightarrow> nat \<Rightarrow> nat \<Rightarrow> nat" where
  "descend lessf xs n i =
     (if i * 2 + 2 \<ge> n then i
      else descend lessf xs n
             (if lessf (xs ! (i * 2 + 1)) (xs ! (i * 2 + 2)) then i * 2 + 1 else i * 2 + 2))"
  by pat_completeness auto
termination
  by (relation "measure (\<lambda>(lessf, xs, n, i). n - i)") auto

declare descend.simps [simp del]

text \<open>
  The second loop: backtrack to the correct location. \<open>root\<close> is a pointer to slot \<open>pos\<close>,
  read at every comparison. As a loop on its own it need not terminate (from an index that
  is not below \<open>pos\<close> in the tree), so not returning is the value \<open>None\<close>.
\<close>

partial_function (option) backtrack ::
  "('a \<Rightarrow> 'a \<Rightarrow> bool) \<Rightarrow> 'a list \<Rightarrow> nat \<Rightarrow> nat \<Rightarrow> nat option" where
  "backtrack lessf xs pos i =
     (if i \<noteq> pos \<and> lessf (xs ! pos) (xs ! i) then backtrack lessf xs pos ((i - 1) div 2)
      else Some i)"

declare backtrack.simps [code]

text \<open>The third loop: shift the element into its correct place; \<open>j\<close> stays fixed.\<close>

partial_function (option) shift :: "'a list \<Rightarrow> nat \<Rightarrow> nat \<Rightarrow> nat \<Rightarrow> 'a list option" where
  "shift xs pos j i =
     (if i \<noteq> pos then shift (swp xs ((i - 1) div 2) j) pos j ((i - 1) div 2)
      else Some xs)"

declare shift.simps [code]

definition min_heapify ::
  "('a \<Rightarrow> 'a \<Rightarrow> bool) \<Rightarrow> 'a min_heap \<Rightarrow> nat \<Rightarrow> 'a min_heap option" where
  "min_heapify lessf heap pos =
     (let xs = data heap;
          i = descend lessf xs (nr heap) pos;
          i = (if i * 2 + 2 = nr heap then i * 2 + 1 else i)
      in do {
        i \<leftarrow> backtrack lessf xs pos i;
        xs' \<leftarrow> shift xs pos i i;
        Some (heap\<lparr>data := xs'\<rparr>)
      })"

subsection \<open>Floyd's heapification: \<open>__min_heapify_all\<close>\<close>

text \<open>The loop variable is a C \<open>int\<close> that ends at \<open>-1\<close>.\<close>

function heapify_all_loop ::
  "('a \<Rightarrow> 'a \<Rightarrow> bool) \<Rightarrow> 'a min_heap \<Rightarrow> int \<Rightarrow> 'a min_heap option" where
  "heapify_all_loop lessf heap i =
     (if i \<ge> 0 then
        (case min_heapify lessf heap (nat i) of
           None \<Rightarrow> None
         | Some heap' \<Rightarrow> heapify_all_loop lessf heap' (i - 1))
      else Some heap)"
  by pat_completeness auto
termination
  by (relation "measure (\<lambda>(lessf, heap, i). nat (i + 1))") auto

declare heapify_all_loop.simps [simp del]

definition min_heapify_all :: "('a \<Rightarrow> 'a \<Rightarrow> bool) \<Rightarrow> 'a min_heap \<Rightarrow> 'a min_heap option" where
  "min_heapify_all lessf heap = heapify_all_loop lessf heap (int (nr heap) div 2 - 1)"

subsection \<open>\<open>__min_heap_pop\<close>, \<open>__min_heap_pop_push\<close>, \<open>__min_heap_push\<close>\<close>

text \<open>
  Modelled from the spec: \<open>WARN_ONCE\<close> of \<open>linux/bug.h\<close>, which is not part of the header.
  It yields its condition and reports the violation; the report is the warning that the
  operation returns beside the heap.
\<close>

datatype warning = Popping_an_empty_heap | Pushing_on_a_full_heap

definition min_heap_pop ::
  "('a \<Rightarrow> 'a \<Rightarrow> bool) \<Rightarrow> 'a min_heap \<Rightarrow> (warning option \<times> 'a min_heap) option" where
  "min_heap_pop lessf heap =
     (if nr heap \<le> 0 then Some (Some Popping_an_empty_heap, heap)
      else
        let heap = heap\<lparr>nr := nr heap - 1\<rparr>;
            heap = heap\<lparr>data := (data heap)[0 := data heap ! nr heap]\<rparr>
        in map_option (Pair None) (min_heapify lessf heap 0))"

definition min_heap_pop_push ::
  "('a \<Rightarrow> 'a \<Rightarrow> bool) \<Rightarrow> 'a min_heap \<Rightarrow> 'a \<Rightarrow> 'a min_heap option" where
  "min_heap_pop_push lessf heap element =
     min_heapify lessf (heap\<lparr>data := (data heap)[0 := element]\<rparr>) 0"

text \<open>The loop of \<open>__min_heap_push\<close>: sift the child at \<open>pos\<close> up.\<close>

function sift_up :: "('a \<Rightarrow> 'a \<Rightarrow> bool) \<Rightarrow> 'a list \<Rightarrow> nat \<Rightarrow> 'a list" where
  "sift_up lessf xs pos =
     (if pos > 0 then
        (if lessf (xs ! ((pos - 1) div 2)) (xs ! pos) then xs
         else sift_up lessf (swp xs ((pos - 1) div 2) pos) ((pos - 1) div 2))
      else xs)"
  by pat_completeness auto
termination
  by (relation "measure (\<lambda>(lessf, xs, pos). pos)") auto

declare sift_up.simps [simp del]

definition min_heap_push ::
  "('a \<Rightarrow> 'a \<Rightarrow> bool) \<Rightarrow> 'a min_heap \<Rightarrow> 'a \<Rightarrow> warning option \<times> 'a min_heap" where
  "min_heap_push lessf heap element =
     (if nr heap \<ge> size_h heap then (Some Pushing_on_a_full_heap, heap)
      else
        let pos = nr heap;
            heap = heap\<lparr>data := (data heap)[pos := element]\<rparr>;
            heap = heap\<lparr>nr := nr heap + 1\<rparr>
        in (None, heap\<lparr>data := sift_up lessf (data heap) pos\<rparr>))"

subsection \<open>Counting the callback calls of \<open>__min_heapify\<close>\<close>

text \<open>
  The three loops again, with the same guards and steps, returning how often they call a
  callback instead of what they compute: \<open>less\<close> in the first and the second loop, \<open>swp\<close>
  in the third. The second loop evaluates \<open>less\<close> only when \<open>i != pos\<close> holds.
\<close>

function descend_less_calls :: "('a \<Rightarrow> 'a \<Rightarrow> bool) \<Rightarrow> 'a list \<Rightarrow> nat \<Rightarrow> nat \<Rightarrow> nat" where
  "descend_less_calls lessf xs n i =
     (if i * 2 + 2 \<ge> n then 0
      else 1 + descend_less_calls lessf xs n
             (if lessf (xs ! (i * 2 + 1)) (xs ! (i * 2 + 2)) then i * 2 + 1 else i * 2 + 2))"
  by pat_completeness auto
termination
  by (relation "measure (\<lambda>(lessf, xs, n, i). n - i)") auto

declare descend_less_calls.simps [simp del]

partial_function (option) backtrack_less_calls ::
  "('a \<Rightarrow> 'a \<Rightarrow> bool) \<Rightarrow> 'a list \<Rightarrow> nat \<Rightarrow> nat \<Rightarrow> nat \<Rightarrow> nat option" where
  "backtrack_less_calls lessf xs pos i calls =
     (if i \<noteq> pos then
        (if lessf (xs ! pos) (xs ! i)
         then backtrack_less_calls lessf xs pos ((i - 1) div 2) (calls + 1)
         else Some (calls + 1))
      else Some calls)"

declare backtrack_less_calls.simps [code]

partial_function (option) shift_swp_calls :: "nat \<Rightarrow> nat \<Rightarrow> nat \<Rightarrow> nat option" where
  "shift_swp_calls pos i calls =
     (if i \<noteq> pos then shift_swp_calls pos ((i - 1) div 2) (calls + 1)
      else Some calls)"

declare shift_swp_calls.simps [code]

text \<open>
  The calls of one \<open>__min_heapify\<close>: \<open>less\<close> calls of the descent, \<open>less\<close> calls of the
  backtracking, \<open>swp\<close> calls.
\<close>

definition min_heapify_calls ::
  "('a \<Rightarrow> 'a \<Rightarrow> bool) \<Rightarrow> 'a min_heap \<Rightarrow> nat \<Rightarrow> (nat \<times> nat \<times> nat) option" where
  "min_heapify_calls lessf heap pos =
     (let xs = data heap;
          i = descend lessf xs (nr heap) pos;
          i = (if i * 2 + 2 = nr heap then i * 2 + 1 else i)
      in do {
        j \<leftarrow> backtrack lessf xs pos i;
        b \<leftarrow> backtrack_less_calls lessf xs pos i 0;
        s \<leftarrow> shift_swp_calls pos j 0;
        Some (descend_less_calls lessf xs (nr heap) pos, b, s)
      })"

section \<open>Notions of the specification\<close>

text \<open>
  A heap is well formed when \<open>0 \<le> nr \<le> size\<close>, the buffer has at least \<open>size\<close> slots, and
  \<open>2 * size\<close> fits an \<open>int\<close>, so that no index computation of the operations overflows.
  An access outside the buffer and an overflow are undefined in C; in the model a write
  outside the list changes nothing and a read outside it is unspecified, so the theorems
  about contents are stated for well-formed heaps.
\<close>

definition wf_heap :: "'a min_heap \<Rightarrow> bool" where
  "wf_heap h = (nr h \<le> size_h h \<and> size_h h \<le> length (data h) \<and> 2 * size_h h \<le> INT_MAX)"

text \<open>The live elements: the first \<open>nr\<close> slots.\<close>

definition live :: "'a min_heap \<Rightarrow> 'a list" where
  "live h = take (nr h) (data h)"

text \<open>
  The heap property: no child among the first \<open>nr\<close> elements compares strictly less than
  its parent.
\<close>

definition heap_property :: "('a \<Rightarrow> 'a \<Rightarrow> bool) \<Rightarrow> 'a min_heap \<Rightarrow> bool" where
  "heap_property lessf h =
     (\<forall>i \<in> set [0..<nr h].
        (2 * i + 1 < nr h \<longrightarrow> \<not> lessf (data h ! (2 * i + 1)) (data h ! i)) \<and>
        (2 * i + 2 < nr h \<longrightarrow> \<not> lessf (data h ! (2 * i + 2)) (data h ! i)))"

text \<open>A strict order: irreflexive and transitive.\<close>

definition strict_order :: "('a \<Rightarrow> 'a \<Rightarrow> bool) \<Rightarrow> bool" where
  "strict_order lessf =
     ((\<forall>a. \<not> lessf a a) \<and> (\<forall>a b c. lessf a b \<longrightarrow> lessf b c \<longrightarrow> lessf a c))"

text \<open>
  The order under which the heap keeps its property and its root is a minimum: a strict
  weak order (irreflexive, transitive, and with a transitive "not less"), such as a strict
  total order or the comparison of a key. It need not be total: distinct elements may be
  equivalent.
\<close>

definition strict_weak_order :: "('a \<Rightarrow> 'a \<Rightarrow> bool) \<Rightarrow> bool" where
  "strict_weak_order lessf =
     ((\<forall>a. \<not> lessf a a) \<and>
      (\<forall>a b c. lessf a b \<longrightarrow> lessf b c \<longrightarrow> lessf a c) \<and>
      (\<forall>a b c. \<not> lessf a b \<longrightarrow> \<not> lessf b c \<longrightarrow> \<not> lessf a c))"

text \<open>A strict total order: a strict weak order in which distinct elements are comparable.\<close>

definition strict_total_order :: "('a \<Rightarrow> 'a \<Rightarrow> bool) \<Rightarrow> bool" where
  "strict_total_order lessf =
     (strict_weak_order lessf \<and> (\<forall>a b. \<not> lessf a b \<longrightarrow> \<not> lessf b a \<longrightarrow> a = b))"

text \<open>A sequence is non-decreasing when no value compares strictly less than an earlier one.\<close>

definition non_decreasing :: "('a \<Rightarrow> 'a \<Rightarrow> bool) \<Rightarrow> 'a list \<Rightarrow> bool" where
  "non_decreasing lessf out = sorted_wrt (\<lambda>a b. \<not> lessf b a) out"

subsection \<open>Sequences of calls\<close>

text \<open>Pushing the elements of a list one at a time.\<close>

fun push_all :: "('a \<Rightarrow> 'a \<Rightarrow> bool) \<Rightarrow> 'a min_heap \<Rightarrow> 'a list \<Rightarrow> 'a min_heap" where
  "push_all lessf h [] = h"
| "push_all lessf h (e # es) = push_all lessf (snd (min_heap_push lessf h e)) es"

text \<open>\<open>k\<close> rounds of reading the element at index 0 and then popping; the values read.\<close>

fun extract_all :: "('a \<Rightarrow> 'a \<Rightarrow> bool) \<Rightarrow> nat \<Rightarrow> 'a min_heap \<Rightarrow> 'a list option" where
  "extract_all lessf 0 h = Some []"
| "extract_all lessf (Suc k) h =
     (case min_heap_pop lessf h of
        None \<Rightarrow> None
      | Some (w, h') \<Rightarrow> map_option ((#) (data h ! 0)) (extract_all lessf k h'))"

text \<open>
  The reference for the fused operation, in the words of the specification: extraction
  followed by insertion of the element.
\<close>

definition pop_then_push ::
  "('a \<Rightarrow> 'a \<Rightarrow> bool) \<Rightarrow> 'a min_heap \<Rightarrow> 'a \<Rightarrow> 'a min_heap option" where
  "pop_then_push lessf h e =
     (case min_heap_pop lessf h of
        None \<Rightarrow> None
      | Some (w, h') \<Rightarrow> Some (snd (min_heap_push lessf h' e)))"

text \<open>
  Bulk build and full extraction, and one-at-a-time insertion into an empty heap \<open>h0\<close> and
  full extraction, of the live elements of \<open>h\<close>.
\<close>

definition bulk_sequence :: "('a \<Rightarrow> 'a \<Rightarrow> bool) \<Rightarrow> 'a min_heap \<Rightarrow> 'a list option" where
  "bulk_sequence lessf h =
     (case min_heapify_all lessf h of
        None \<Rightarrow> None
      | Some h' \<Rightarrow> extract_all lessf (nr h) h')"

definition push_sequence ::
  "('a \<Rightarrow> 'a \<Rightarrow> bool) \<Rightarrow> 'a min_heap \<Rightarrow> 'a min_heap \<Rightarrow> 'a list option" where
  "push_sequence lessf h0 h = extract_all lessf (nr h) (push_all lessf h0 (live h))"

text \<open>The calls of a client, the condition under which a call is valid, and its effect.\<close>

datatype 'a heap_op = Push 'a | Pop | Pop_push 'a | Heapify_all

fun valid_op :: "'a min_heap \<Rightarrow> 'a heap_op \<Rightarrow> bool" where
  "valid_op h (Push e) = (nr h < size_h h)"
| "valid_op h Pop = (nr h > 0)"
| "valid_op h (Pop_push e) = (nr h > 0)"
| "valid_op h Heapify_all = True"

fun apply_op :: "('a \<Rightarrow> 'a \<Rightarrow> bool) \<Rightarrow> 'a min_heap \<Rightarrow> 'a heap_op \<Rightarrow> 'a min_heap option" where
  "apply_op lessf h (Push e) = Some (snd (min_heap_push lessf h e))"
| "apply_op lessf h Pop = map_option snd (min_heap_pop lessf h)"
| "apply_op lessf h (Pop_push e) = min_heap_pop_push lessf h e"
| "apply_op lessf h Heapify_all = min_heapify_all lessf h"

text \<open>
  \<open>run\<close> performs a sequence of calls and yields the heap after each call (\<open>None\<close> when a
  call does not return); \<open>all_valid\<close> says that every call of the sequence is valid in the
  state it is made in.
\<close>

fun run :: "('a \<Rightarrow> 'a \<Rightarrow> bool) \<Rightarrow> 'a min_heap \<Rightarrow> 'a heap_op list \<Rightarrow> 'a min_heap list option" where
  "run lessf h [] = Some []"
| "run lessf h (x # xs) =
     (case apply_op lessf h x of
        None \<Rightarrow> None
      | Some h' \<Rightarrow> map_option ((#) h') (run lessf h' xs))"

fun all_valid :: "('a \<Rightarrow> 'a \<Rightarrow> bool) \<Rightarrow> 'a min_heap \<Rightarrow> 'a heap_op list \<Rightarrow> bool" where
  "all_valid lessf h [] = True"
| "all_valid lessf h (x # xs) =
     (valid_op h x \<and>
      (case apply_op lessf h x of None \<Rightarrow> False | Some h' \<Rightarrow> all_valid lessf h' xs))"

subsection \<open>Example heaps\<close>

text \<open>A full heap of six integers, and five live integers in no order before a dead slot.\<close>

definition full_heap :: "int min_heap" where
  "full_heap = \<lparr>data = [1, 3, 2, 5, 9, 8], nr = 6, size_h = 6\<rparr>"

definition unordered_heap :: "int min_heap" where
  "unordered_heap = \<lparr>data = [7, 3, 8, 5, 9, 1], nr = 5, size_h = 6\<rparr>"

definition three_heap :: "int min_heap" where
  "three_heap = \<lparr>data = [1, 2, 3], nr = 3, size_h = 3\<rparr>"

text \<open>
  Elements with a key and a tag, ordered by the key alone: three elements of equal key.
\<close>

definition key_less :: "nat \<times> nat \<Rightarrow> nat \<times> nat \<Rightarrow> bool" where
  "key_less a b = (fst a < fst b)"

definition tied_heap :: "(nat \<times> nat) min_heap" where
  "tied_heap = \<lparr>data = [(1, 0), (1, 1), (1, 2)], nr = 3, size_h = 3\<rparr>"

text \<open>
  Pairs ordered componentwise: irreflexive and transitive, but not a strict weak order; and
  a heap of two such pairs with a free slot.
\<close>

definition pair_less :: "nat \<times> nat \<Rightarrow> nat \<times> nat \<Rightarrow> bool" where
  "pair_less a b = (fst a < fst b \<and> snd a < snd b)"

definition pair_heap :: "(nat \<times> nat) min_heap" where
  "pair_heap = \<lparr>data = [(0, 5), (1, 1), (0, 0)], nr = 2, size_h = 3\<rparr>"

text \<open>
  Four pairs with the heap property under the componentwise order, the last of which is
  less than the first.
\<close>

definition crossed_heap :: "(nat \<times> nat) min_heap" where
  "crossed_heap = \<lparr>data = [(1, 6), (0, 7), (5, 5), (0, 5)], nr = 4, size_h = 4\<rparr>"

text \<open>An empty heap over a buffer of \<open>n\<close> slots that hold \<open>x\<close>.\<close>

definition empty_heap :: "nat \<Rightarrow> 'a \<Rightarrow> 'a min_heap" where
  "empty_heap n x = \<lparr>data = replicate n x, nr = 0, size_h = n\<rparr>"

subsection \<open>Positions in the tree\<close>

text \<open>\<open>below p i\<close>: index \<open>i\<close> lies in the subtree rooted at index \<open>p\<close>.\<close>

function below :: "nat \<Rightarrow> nat \<Rightarrow> bool" where
  "below p i = (if i \<le> p then i = p else below p ((i - 1) div 2))"
  by pat_completeness auto
termination
  by (relation "measure (\<lambda>(p, i). i)") auto

declare below.simps [simp del]

text \<open>The depth of an index: the number of steps to its parent that lead to the root.\<close>

function depth :: "nat \<Rightarrow> nat" where
  "depth i = (if i = 0 then 0 else 1 + depth ((i - 1) div 2))"
  by pat_completeness auto
termination
  by (relation "measure (\<lambda>i. i)") auto

declare depth.simps [simp del]

text \<open>The other child of the parent of \<open>m\<close>.\<close>

definition sib :: "nat \<Rightarrow> nat" where
  "sib m = (if odd m then m + 1 else m - 1)"

text \<open>
  The heap property restricted to the children of the indices from \<open>l\<close> on, stated from the
  child's side; \<open>l = 0\<close> gives the heap property.
\<close>

definition hp :: "('a \<Rightarrow> 'a \<Rightarrow> bool) \<Rightarrow> 'a list \<Rightarrow> nat \<Rightarrow> nat \<Rightarrow> bool" where
  "hp lessf xs n l = (\<forall>c. 2 * l < c \<and> c < n \<longrightarrow> \<not> lessf (xs ! c) (xs ! ((c - 1) div 2)))"

text \<open>
  The index at which the backtracking of \<open>__min_heapify\<close> starts: the end of the descent,
  or its only child.
\<close>

definition sift_leaf :: "('a \<Rightarrow> 'a \<Rightarrow> bool) \<Rightarrow> 'a list \<Rightarrow> nat \<Rightarrow> nat \<Rightarrow> nat" where
  "sift_leaf lessf xs n pos =
     (if descend lessf xs n pos * 2 + 2 = n then descend lessf xs n pos * 2 + 1
      else descend lessf xs n pos)"

section \<open>Paths in the tree\<close>

lemma below_refl [simp]: "below p p"
  by (simp add: below.simps)

lemma below_le: "below p i \<Longrightarrow> p \<le> i"
  by (induction p i rule: below.induct) (subst (asm) below.simps, auto split: if_splits)

lemma below_antisym: "below a b \<Longrightarrow> below b a \<Longrightarrow> a = b"
  using below_le[of a b] below_le[of b a] by simp

lemma below_parent: "below p i \<Longrightarrow> i \<noteq> p \<Longrightarrow> below p ((i - 1) div 2)"
  by (subst (asm) below.simps) (auto split: if_splits)

lemma below_up: "below p ((i - 1) div 2) \<Longrightarrow> 0 < i \<Longrightarrow> below p i"
  using below_le[of p "(i - 1) div 2"] by (subst below.simps) auto

lemma below_left: "below p i \<Longrightarrow> below p (i * 2 + 1)"
  by (rule below_up) auto

lemma below_right: "below p i \<Longrightarrow> below p (i * 2 + 2)"
  by (rule below_up) auto

lemma below_trans: "below a b \<Longrightarrow> below b c \<Longrightarrow> below a c"
proof (induction c rule: less_induct)
  case (less c)
  show ?case
  proof (cases "c = b")
    case True
    with less.prems show ?thesis by simp
  next
    case False
    with less.prems have b: "below b ((c - 1) div 2)" by (metis below_parent)
    from less.prems False have "b < c" using below_le[of b c] by simp
    then have "(c - 1) div 2 < c" "0 < c" by auto
    with less.IH[of "(c - 1) div 2"] less.prems b show ?thesis
      by (auto intro: below_up)
  qed
qed

lemma below_linear: "below a c \<Longrightarrow> below b c \<Longrightarrow> a \<le> b \<Longrightarrow> below a b"
proof (induction c rule: less_induct)
  case (less c)
  show ?case
  proof (cases "c = b")
    case True
    with less.prems show ?thesis by simp
  next
    case False
    with less.prems have b: "below b ((c - 1) div 2)" by (metis below_parent)
    from less.prems False have bc: "b < c" using below_le[of b c] by simp
    with less.prems have "a \<noteq> c" by simp
    with less.prems have a: "below a ((c - 1) div 2)" by (metis below_parent)
    from bc have "(c - 1) div 2 < c" by auto
    with less.IH[of "(c - 1) div 2"] a b less.prems show ?thesis by simp
  qed
qed

lemma below_step_down:
  "below q j \<Longrightarrow> q \<noteq> j \<Longrightarrow> \<exists>m. 0 < m \<and> (m - 1) div 2 = q \<and> below m j"
proof (induction j rule: less_induct)
  case (less j)
  from less.prems have qj: "q < j" using below_le[of q j] by simp
  show ?case
  proof (cases "(j - 1) div 2 = q")
    case True
    with qj show ?thesis by (intro exI[of _ j]) simp
  next
    case False
    from less.prems have "below q ((j - 1) div 2)" by (metis below_parent)
    moreover from qj have "(j - 1) div 2 < j" by auto
    ultimately obtain m where m: "0 < m" "(m - 1) div 2 = q" "below m ((j - 1) div 2)"
      using less.IH[of "(j - 1) div 2"] False by auto
    from m(3) qj have "below m j" by (auto intro: below_up)
    with m show ?thesis by blast
  qed
qed

lemma path_child_unique:
  assumes "below m j" "below c j" "(m - 1) div 2 = (c - 1) div 2" "0 < m" "0 < c"
  shows "m = c"
proof -
  have aux: "x = y" if "below x j" "below y j" "(x - 1) div 2 = (y - 1) div 2" "0 < x" "0 < y" "x \<le> y"
    for x y
  proof (rule ccontr)
    assume ne: "x \<noteq> y"
    from that have "below x y" by (auto intro: below_linear)
    with ne have "below x ((y - 1) div 2)" by (metis below_parent)
    then have "x \<le> (y - 1) div 2" by (rule below_le)
    with that show False by auto
  qed
  show ?thesis
  proof (cases "m \<le> c")
    case True
    from aux[of m c] assms True show ?thesis by simp
  next
    case False
    from aux[of c m] assms False show ?thesis by simp
  qed
qed

lemma sib_left: "sib (i * 2 + 1) = i * 2 + 2"
  by (simp add: sib_def)

lemma sib_right: "sib (i * 2 + 2) = i * 2 + 1"
  by (simp add: sib_def)

lemma swp_length [simp]: "length (swp xs i j) = length xs"
  by (simp add: swp_def)

lemma swp_nth:
  "i < length xs \<Longrightarrow> j < length xs \<Longrightarrow>
   swp xs i j ! k = (if k = j then xs ! i else if k = i then xs ! j else xs ! k)"
  by (auto simp: swp_def nth_list_update)

lemma descend_spec:
  "(\<forall>a b. lessf a b \<longrightarrow> \<not> lessf b a) \<Longrightarrow> below pos i \<Longrightarrow> i < n \<Longrightarrow>
     (\<forall>m. below pos m \<and> m \<noteq> pos \<and> below m i \<longrightarrow> \<not> lessf (xs ! sib m) (xs ! m)) \<Longrightarrow>
     below pos (descend lessf xs n i) \<and> below i (descend lessf xs n i) \<and>
     descend lessf xs n i < n \<and> n \<le> descend lessf xs n i * 2 + 2 \<and>
     (\<forall>m. below pos m \<and> m \<noteq> pos \<and> below m (descend lessf xs n i)
        \<longrightarrow> \<not> lessf (xs ! sib m) (xs ! m))"
proof (induction lessf xs n i rule: descend.induct)
  case (1 lessf xs n i)
  show ?case
  proof (cases "i * 2 + 2 \<ge> n")
    case True
    with "1.prems" show ?thesis by (subst (1 2 3 4 5) descend.simps) simp
  next
    case False
    define c where "c = (if lessf (xs ! (i * 2 + 1)) (xs ! (i * 2 + 2)) then i * 2 + 1 else i * 2 + 2)"
    have par: "(c - 1) div 2 = i" and c0: "0 < c" by (auto simp: c_def)
    have bc: "below pos c"
      using "1.prems"(2) below_left[of pos i] below_right[of pos i] by (simp add: c_def)
    have ic: "below i c"
      using below_left[of i i] below_right[of i i] by (simp add: c_def)
    have cn: "c < n" using False by (auto simp: c_def)
    have chosen: "\<not> lessf (xs ! sib c) (xs ! c)"
    proof (cases "lessf (xs ! (i * 2 + 1)) (xs ! (i * 2 + 2))")
      case True
      then have "\<not> lessf (xs ! (i * 2 + 2)) (xs ! (i * 2 + 1))" using "1.prems"(1) by blast
      with True show ?thesis by (simp only: c_def if_True sib_left not_False_eq_True)
    next
      case False
      then show ?thesis by (simp only: c_def if_False sib_right not_False_eq_True)
    qed
    have path: "\<forall>m. below pos m \<and> m \<noteq> pos \<and> below m c \<longrightarrow> \<not> lessf (xs ! sib m) (xs ! m)"
    proof (intro allI impI)
      fix m assume m: "below pos m \<and> m \<noteq> pos \<and> below m c"
      show "\<not> lessf (xs ! sib m) (xs ! m)"
      proof (cases "m = c")
        case True
        with chosen show ?thesis by simp
      next
        case False
        with m have "below m ((c - 1) div 2)" using below_parent[of m c] by simp
        with par have "below m i" by simp
        with m "1.prems"(4) show ?thesis by blast
      qed
    qed
    have eq: "descend lessf xs n i = descend lessf xs n c"
      using False by (subst descend.simps) (simp add: c_def)
    have IH: "below pos (descend lessf xs n c) \<and> below c (descend lessf xs n c) \<and>
       descend lessf xs n c < n \<and> n \<le> descend lessf xs n c * 2 + 2 \<and>
       (\<forall>m. below pos m \<and> m \<noteq> pos \<and> below m (descend lessf xs n c)
          \<longrightarrow> \<not> lessf (xs ! sib m) (xs ! m))"
      using "1.IH"[OF False "1.prems"(1) bc[unfolded c_def] cn[unfolded c_def] path[unfolded c_def]]
      unfolding c_def .
    then have "below i (descend lessf xs n c)" using ic below_trans by blast
    with IH show ?thesis unfolding eq by blast
  qed
qed

lemma backtrack_spec:
  "below pos i \<Longrightarrow>
   \<exists>k. backtrack lessf xs pos i = Some k \<and> below pos k \<and> below k i \<and>
       (k \<noteq> pos \<longrightarrow> \<not> lessf (xs ! pos) (xs ! k)) \<and>
       (\<forall>m. below k m \<and> m \<noteq> k \<and> below m i \<longrightarrow> lessf (xs ! pos) (xs ! m))"
proof (induction i rule: less_induct)
  case (less i)
  show ?case
  proof (cases "i \<noteq> pos \<and> lessf (xs ! pos) (xs ! i)")
    case False
    then have "backtrack lessf xs pos i = Some i" by (subst backtrack.simps) auto
    moreover have "\<forall>m. below i m \<and> m \<noteq> i \<and> below m i \<longrightarrow> lessf (xs ! pos) (xs ! m)"
      by (auto dest: below_antisym)
    ultimately show ?thesis using less.prems False by auto
  next
    case True
    let ?p = "(i - 1) div 2"
    from True less.prems have pi: "pos < i" using below_le[of pos i] by simp
    then have lt: "?p < i" and i0: "0 < i" by auto
    from True less.prems have bp: "below pos ?p" by (metis below_parent)
    from less.IH[OF lt bp] obtain k where k:
      "backtrack lessf xs pos ?p = Some k" "below pos k" "below k ?p"
      "k \<noteq> pos \<longrightarrow> \<not> lessf (xs ! pos) (xs ! k)"
      "\<forall>m. below k m \<and> m \<noteq> k \<and> below m ?p \<longrightarrow> lessf (xs ! pos) (xs ! m)"
      by blast
    have eq: "backtrack lessf xs pos i = Some k"
      using True k(1) by (subst backtrack.simps) simp
    have ki: "below k i" using k(3) i0 by (rule below_up)
    have "\<forall>m. below k m \<and> m \<noteq> k \<and> below m i \<longrightarrow> lessf (xs ! pos) (xs ! m)"
    proof (intro allI impI)
      fix m assume m: "below k m \<and> m \<noteq> k \<and> below m i"
      show "lessf (xs ! pos) (xs ! m)"
      proof (cases "m = i")
        case True
        with \<open>i \<noteq> pos \<and> lessf (xs ! pos) (xs ! i)\<close> show ?thesis by simp
      next
        case False
        with m have "below m ?p" by (metis below_parent)
        with m k(5) show ?thesis by blast
      qed
    qed
    with eq k(2,4) ki show ?thesis by blast
  qed
qed

lemma shift_spec:
  "below pos i \<Longrightarrow> below i j \<Longrightarrow> j < length ys \<Longrightarrow>
   \<exists>zs. shift ys pos j i = Some zs \<and> length zs = length ys \<and>
     (i = pos \<longrightarrow> zs = ys) \<and>
     (i \<noteq> pos \<longrightarrow> zs ! j = ys ! pos \<and> zs ! ((i - 1) div 2) = ys ! j) \<and>
     (\<forall>m. below pos m \<and> m \<noteq> pos \<and> below m i \<and> m \<noteq> i \<longrightarrow> zs ! ((m - 1) div 2) = ys ! m) \<and>
     (\<forall>q. q \<noteq> j \<and> \<not> (below pos q \<and> below q i \<and> q \<noteq> i) \<longrightarrow> zs ! q = ys ! q)"
proof (induction i arbitrary: ys rule: less_induct)
  case (less i)
  show ?case
  proof (cases "i = pos")
    case True
    then have "shift ys pos j i = Some ys" by (subst shift.simps) simp
    moreover have "\<not> (below pos m \<and> m \<noteq> pos \<and> below m pos)" for m
      by (auto dest: below_antisym)
    ultimately show ?thesis using True by auto
  next
    case False
    define p where "p = (i - 1) div 2"
    define ys' where "ys' = swp ys p j"
    from False less.prems have pi: "pos < i" using below_le[of pos i] by simp
    then have lt: "p < i" and i0: "0 < i" by (auto simp: p_def)
    from less.prems have ij: "i \<le> j" by (auto dest: below_le)
    from False less.prems have bp: "below pos p" unfolding p_def by (metis below_parent)
    have pi': "below p i" unfolding p_def using i0 by (rule below_up[rotated]) simp
    have pj: "below p j" using pi' less.prems(2) by (rule below_trans)
    have len: "length ys' = length ys" by (simp add: ys'_def)
    have pl: "p < length ys" using lt ij less.prems by simp
    have nth': "ys' ! k = (if k = j then ys ! p else if k = p then ys ! j else ys ! k)" for k
      unfolding ys'_def using pl less.prems(3) by (rule swp_nth)
    from less.IH[OF lt bp pj, of ys'] len less.prems(3) obtain zs where zs:
      "shift ys' pos j p = Some zs" "length zs = length ys'"
      "p = pos \<longrightarrow> zs = ys'"
      "p \<noteq> pos \<longrightarrow> zs ! j = ys' ! pos \<and> zs ! ((p - 1) div 2) = ys' ! j"
      "\<forall>m. below pos m \<and> m \<noteq> pos \<and> below m p \<and> m \<noteq> p \<longrightarrow> zs ! ((m - 1) div 2) = ys' ! m"
      "\<forall>q. q \<noteq> j \<and> \<not> (below pos q \<and> below q p \<and> q \<noteq> p) \<longrightarrow> zs ! q = ys' ! q"
      by auto
    have eq: "shift ys pos j i = Some zs"
      using False zs(1) by (subst shift.simps) (simp add: p_def ys'_def)
    have pj': "p \<noteq> j" using lt ij by simp
    have a: "zs ! j = ys ! pos"
    proof (cases "p = pos")
      case True
      with zs(3) nth'[of j] show ?thesis by simp
    next
      case False
      with zs(4) have "zs ! j = ys' ! pos" by simp
      also have "\<dots> = ys ! pos" using nth'[of pos] False pi ij by auto
      finally show ?thesis .
    qed
    have c: "zs ! p = ys ! j"
    proof -
      have "zs ! p = ys' ! p" using zs(6) pj' by blast
      then show ?thesis using nth'[of p] pj' by simp
    qed
    have d: "zs ! ((m - 1) div 2) = ys ! m"
      if m: "below pos m" "m \<noteq> pos" "below m i" "m \<noteq> i" for m
    proof -
      from m have mp: "below m p" unfolding p_def by (metis below_parent)
      then have mle: "m \<le> p" by (rule below_le)
      show ?thesis
      proof (cases "m = p")
        case True
        with m(2) zs(4) have "zs ! ((m - 1) div 2) = ys' ! j" by simp
        with True nth'[of j] show ?thesis by simp
      next
        case False
        with m mp zs(5) have "zs ! ((m - 1) div 2) = ys' ! m" by blast
        with False mle pj' lt ij nth'[of m] show ?thesis by auto
      qed
    qed
    have e: "zs ! q = ys ! q" if q: "q \<noteq> j" "\<not> (below pos q \<and> below q i \<and> q \<noteq> i)" for q
    proof -
      have qp: "q \<noteq> p" using q(2) bp pi' lt by auto
      have "\<not> (below pos q \<and> below q p \<and> q \<noteq> p)"
      proof
        assume h: "below pos q \<and> below q p \<and> q \<noteq> p"
        then have "below q i" using below_trans[OF _ pi', of q] by blast
        moreover from h have "q \<le> p" by (auto dest: below_le)
        ultimately show False using h q(2) lt by auto
      qed
      with q(1) zs(6) have "zs ! q = ys' ! q" by blast
      with qp q(1) nth'[of q] show ?thesis by simp
    qed
    from eq zs(2) len a c d e False show ?thesis unfolding p_def by auto
  qed
qed

lemma sib_char:
  assumes "0 < a" "0 < b" "(a - 1) div 2 = (b - 1) div 2" "a \<noteq> b"
  shows "b = sib a"
proof (cases "odd a")
  case True
  then obtain k where k: "a = 2 * k + 1" by (elim oddE)
  with assms have "b = 2 * k + 2" by auto
  with k True show ?thesis by (simp add: sib_def)
next
  case False
  then have "even a" by simp
  then obtain k' where "a = 2 * k'" by (elim evenE)
  with assms(1) obtain k where k: "a = 2 * k + 2" by (cases k') auto
  with assms have "b = 2 * k + 1" by auto
  with k False show ?thesis by (simp add: sib_def)
qed

lemma below_child: "0 < m \<Longrightarrow> below ((m - 1) div 2) m"
  by (rule below_up) simp_all

lemma rotate_hp:
  assumes asym: "\<forall>a b. lessf a b \<longrightarrow> \<not> lessf b a"
    and trans: "\<forall>a b c. lessf a b \<longrightarrow> lessf b c \<longrightarrow> lessf a c"
    and pj: "below pos j" and je: "below j e" and en: "e < n" and leaf: "n \<le> e * 2 + 1"
    and path: "\<forall>m. below pos m \<and> m \<noteq> pos \<and> below m e \<and> sib m < n
                 \<longrightarrow> \<not> lessf (xs ! sib m) (xs ! m)"
    and stop: "j \<noteq> pos \<longrightarrow> \<not> lessf (xs ! pos) (xs ! j)"
    and passed: "\<forall>m. below j m \<and> m \<noteq> j \<and> below m e \<longrightarrow> lessf (xs ! pos) (xs ! m)"
    and zj: "zs ! j = xs ! pos"
    and up: "\<forall>m. below pos m \<and> m \<noteq> pos \<and> below m j \<longrightarrow> zs ! ((m - 1) div 2) = xs ! m"
    and same: "\<forall>q. \<not> (below pos q \<and> below q j) \<longrightarrow> zs ! q = xs ! q"
    and hp0: "hp lessf xs n (pos + 1)"
  shows "hp lessf zs n pos"
  unfolding hp_def
proof (intro allI impI)
  fix c assume c: "2 * pos < c \<and> c < n"
  define q where "q = (c - 1) div 2"
  from c have c0: "0 < c" and qpos: "pos \<le> q" and qc: "q < c" by (auto simp: q_def)
  have qc': "below q c" unfolding q_def using c0 by (rule below_child)
  have jn: "j < n" using je en below_le[of j e] by simp
  show "\<not> lessf (zs ! c) (zs ! ((c - 1) div 2))"
    unfolding q_def[symmetric]
  proof -
    consider (A) "below pos q" "below q j" "q \<noteq> j" | (B) "q = j"
      | (C) "\<not> (below pos q \<and> below q j)" by blast
    then show "\<not> lessf (zs ! c) (zs ! q)"
    proof cases
      case A
      from below_step_down[OF A(2,3)] obtain m where
        m: "0 < m" "(m - 1) div 2 = q" "below m j" by blast
      have qm: "below q m" using below_child[OF m(1)] m(2) by simp
      have pm: "below pos m" using A(1) qm by (rule below_trans)
      have mq: "q < m" using m(1,2) by auto
      with qpos have mpos: "m \<noteq> pos" by simp
      from up pm mpos m(3) have "zs ! ((m - 1) div 2) = xs ! m" by blast
      with m(2) have zq: "zs ! q = xs ! m" by simp
      show ?thesis
      proof (cases "c = m")
        case True
        show ?thesis
        proof (cases "c = j")
          case True
          with \<open>c = m\<close> zq zj stop c show ?thesis by auto
        next
          case False
          with True m(3) have "below c j" "c \<noteq> j" by simp_all
          from below_step_down[OF this] obtain m2 where
            m2: "0 < m2" "(m2 - 1) div 2 = c" "below m2 j" by blast
          have "below c m2" using below_child[OF m2(1)] m2(2) by simp
          with pm True have pm2: "below pos m2" using below_trans by blast
          have cm2: "c < m2" using m2(1,2) by auto
          with c have "m2 \<noteq> pos" by simp
          with up pm2 m2(3) have "zs ! ((m2 - 1) div 2) = xs ! m2" by blast
          with m2(2) have zc: "zs ! c = xs ! m2" by simp
          have "m2 \<le> j" using m2(3) by (rule below_le)
          with jn have "m2 < n" by simp
          moreover have "2 * (pos + 1) < m2" using m2(1,2) c by auto
          ultimately have "\<not> lessf (xs ! m2) (xs ! ((m2 - 1) div 2))"
            using hp0 unfolding hp_def by blast
          with m2(2) zc zq True show ?thesis by simp
        qed
      next
        case False
        with m(1,2) c0 have cs: "c = sib m" by (intro sib_char[of m c]) (auto simp: q_def)
        have "\<not> below c j"
        proof
          assume "below c j"
          with m(3) have "m = c" using m(1,2) c0 by (intro path_child_unique[of m j c]) (auto simp: q_def)
          with False show False by simp
        qed
        with same have zc: "zs ! c = xs ! c" by blast
        have "below m e" using m(3) je by (rule below_trans)
        with path pm mpos cs c have "\<not> lessf (xs ! c) (xs ! m)" by auto
        with zc zq show ?thesis by simp
      qed
    next
      case B
      with zj have zq: "zs ! q = xs ! pos" by simp
      have "\<not> below c j" using B qc below_le[of c j] by auto
      with same have zc: "zs ! c = xs ! c" by blast
      have "j \<noteq> e" using B c leaf by (auto simp: q_def)
      from below_step_down[OF je this] obtain m where
        m: "0 < m" "(m - 1) div 2 = j" "below m e" by blast
      have jm: "below j m" using below_child[OF m(1)] m(2) by simp
      have "m \<noteq> j" using m(1,2) by auto
      with passed jm m(3) have lt: "lessf (xs ! pos) (xs ! m)" by blast
      show ?thesis
      proof (cases "c = m")
        case True
        with lt asym zc zq show ?thesis by auto
      next
        case False
        with m(1,2) c0 B have cs: "c = sib m" by (intro sib_char[of m c]) (auto simp: q_def)
        have pm: "below pos m" using pj jm by (rule below_trans)
        have "m \<noteq> pos" using m(1,2) pj below_le[of pos j] by auto
        with path pm m(3) cs c have "\<not> lessf (xs ! c) (xs ! m)" by auto
        with lt trans have "\<not> lessf (xs ! c) (xs ! pos)" by blast
        with zc zq show ?thesis by simp
      qed
    next
      case C
      with same have zq: "zs ! q = xs ! q" by blast
      have "\<not> (below pos c \<and> below c j)"
      proof
        assume h: "below pos c \<and> below c j"
        with c have "below pos ((c - 1) div 2)" using below_parent[of pos c] by auto
        moreover from h qc' have "below q j" using below_trans by blast
        ultimately show False using C by (simp add: q_def)
      qed
      with same have zc: "zs ! c = xs ! c" by blast
      from C pj have "q \<noteq> pos" by auto
      with qpos have "2 * (pos + 1) < c" using c0 by (auto simp: q_def)
      with c hp0 have "\<not> lessf (xs ! c) (xs ! ((c - 1) div 2))" unfolding hp_def by blast
      with zc zq show ?thesis by (simp add: q_def)
    qed
  qed
qed

section \<open>Every operation returns\<close>

lemma descend_below: "below i (descend lessf xs n i)"
proof (induction lessf xs n i rule: descend.induct)
  case (1 lessf xs n i)
  show ?case
  proof (cases "i * 2 + 2 \<ge> n")
    case True
    then show ?thesis by (subst descend.simps) simp
  next
    case False
    define c where "c = (if lessf (xs ! (i * 2 + 1)) (xs ! (i * 2 + 2)) then i * 2 + 1 else i * 2 + 2)"
    have ic: "below i c"
      using below_left[of i i] below_right[of i i] by (simp add: c_def)
    have eq: "descend lessf xs n i = descend lessf xs n c"
      using False by (subst descend.simps) (simp add: c_def)
    have "below c (descend lessf xs n c)" using "1.IH"[OF False] unfolding c_def .
    with ic show ?thesis unfolding eq by (rule below_trans)
  qed
qed

lemma shift_returns:
  "below pos i \<Longrightarrow> \<exists>zs. shift ys pos j i = Some zs \<and> length zs = length ys"
proof (induction i arbitrary: ys rule: less_induct)
  case (less i)
  show ?case
  proof (cases "i = pos")
    case True
    then show ?thesis by (subst shift.simps) simp
  next
    case False
    from False less.prems have "pos < i" using below_le[of pos i] by simp
    then have lt: "(i - 1) div 2 < i" by auto
    from False less.prems have bp: "below pos ((i - 1) div 2)" by (metis below_parent)
    from less.IH[OF lt bp, of "swp ys ((i - 1) div 2) j"] False show ?thesis
      by (subst shift.simps) simp
  qed
qed

lemma min_heapify_returns:
  "\<exists>zs. min_heapify lessf h pos = Some (h\<lparr>data := zs\<rparr>) \<and> length zs = length (data h)"
proof -
  define e where "e = descend lessf (data h) (nr h) pos"
  define e1 where "e1 = (if e * 2 + 2 = nr h then e * 2 + 1 else e)"
  have "below pos e" unfolding e_def by (rule descend_below)
  then have "below pos e1" using below_left[of pos e] by (simp add: e1_def)
  from backtrack_spec[OF this, of lessf "data h"] obtain j where
    j: "backtrack lessf (data h) pos e1 = Some j" "below pos j" by blast
  from shift_returns[OF j(2), of "data h" j] obtain zs where
    zs: "shift (data h) pos j j = Some zs" "length zs = length (data h)" by blast
  have "min_heapify lessf h pos =
      backtrack lessf (data h) pos e1 \<bind>
        (\<lambda>i. shift (data h) pos i i \<bind> (\<lambda>xs'. Some (h\<lparr>data := xs'\<rparr>)))"
    unfolding min_heapify_def Let_def e1_def e_def ..
  with j(1) zs(1) have "min_heapify lessf h pos = Some (h\<lparr>data := zs\<rparr>)" by simp
  with zs(2) show ?thesis by blast
qed

lemma heapify_all_loop_returns:
  "\<exists>zs. heapify_all_loop lessf h i = Some (h\<lparr>data := zs\<rparr>) \<and> length zs = length (data h)"
proof (induction lessf h i rule: heapify_all_loop.induct)
  case (1 lessf h i)
  show ?case
  proof (cases "i \<ge> 0")
    case False
    then have "heapify_all_loop lessf h i = Some (h\<lparr>data := data h\<rparr>)"
      by (subst heapify_all_loop.simps) simp
    then show ?thesis by blast
  next
    case True
    from min_heapify_returns[of lessf h "nat i"] obtain zs where
      zs: "min_heapify lessf h (nat i) = Some (h\<lparr>data := zs\<rparr>)" "length zs = length (data h)"
      by blast
    from "1.IH"[OF True zs(1)] obtain zs' where
      zs': "heapify_all_loop lessf (h\<lparr>data := zs\<rparr>) (i - 1) = Some (h\<lparr>data := zs'\<rparr>)"
        "length zs' = length zs" by auto
    have "heapify_all_loop lessf h i = Some (h\<lparr>data := zs'\<rparr>)"
      using True zs(1) zs'(1) by (subst heapify_all_loop.simps) simp
    with zs(2) zs'(2) show ?thesis by auto
  qed
qed

lemma min_heapify_all_returns:
  "\<exists>zs. min_heapify_all lessf h = Some (h\<lparr>data := zs\<rparr>) \<and> length zs = length (data h)"
  unfolding min_heapify_all_def by (rule heapify_all_loop_returns)

lemma min_heap_pop_push_returns:
  "\<exists>zs. min_heap_pop_push lessf h e = Some (h\<lparr>data := zs\<rparr>) \<and> length zs = length (data h)"
  using min_heapify_returns[of lessf "h\<lparr>data := (data h)[0 := e]\<rparr>" 0]
  by (auto simp: min_heap_pop_push_def)

lemma min_heap_pop_returns:
  "\<exists>w h'. min_heap_pop lessf h = Some (w, h')"
  using min_heapify_returns[of lessf "h\<lparr>nr := nr h - 1, data := (data h)[0 := data h ! (nr h - 1)]\<rparr>" 0]
  by (auto simp: min_heap_pop_def Let_def)

section \<open>The sift-down\<close>

lemma min_heapify_unfold:
  "min_heapify lessf h pos =
     backtrack lessf (data h) pos (sift_leaf lessf (data h) (nr h) pos) \<bind>
       (\<lambda>i. shift (data h) pos i i \<bind> (\<lambda>xs'. Some (h\<lparr>data := xs'\<rparr>)))"
  unfolding min_heapify_def Let_def sift_leaf_def ..

lemma min_heapify_calls_unfold:
  "min_heapify_calls lessf h pos =
     backtrack lessf (data h) pos (sift_leaf lessf (data h) (nr h) pos) \<bind>
       (\<lambda>j. backtrack_less_calls lessf (data h) pos (sift_leaf lessf (data h) (nr h) pos) 0 \<bind>
         (\<lambda>b. shift_swp_calls pos j 0 \<bind>
           (\<lambda>s. Some (descend_less_calls lessf (data h) (nr h) pos, b, s))))"
  unfolding min_heapify_calls_def Let_def sift_leaf_def ..

lemma descend_lt: "i < n \<Longrightarrow> descend lessf xs n i < n"
proof (induction lessf xs n i rule: descend.induct)
  case (1 lessf xs n i)
  show ?case
  proof (cases "i * 2 + 2 \<ge> n")
    case True
    with "1.prems" show ?thesis by (subst descend.simps) simp
  next
    case False
    define c where "c = (if lessf (xs ! (i * 2 + 1)) (xs ! (i * 2 + 2)) then i * 2 + 1 else i * 2 + 2)"
    have cn: "c < n" using False by (auto simp: c_def)
    have eq: "descend lessf xs n i = descend lessf xs n c"
      using False by (subst descend.simps) (simp add: c_def)
    show ?thesis unfolding eq using "1.IH"[OF False cn[unfolded c_def]] unfolding c_def .
  qed
qed

lemma descend_stop: "n \<le> descend lessf xs n i * 2 + 2"
proof (induction lessf xs n i rule: descend.induct)
  case (1 lessf xs n i)
  show ?case
  proof (cases "i * 2 + 2 \<ge> n")
    case True
    then show ?thesis by (subst descend.simps) simp
  next
    case False
    define c where "c = (if lessf (xs ! (i * 2 + 1)) (xs ! (i * 2 + 2)) then i * 2 + 1 else i * 2 + 2)"
    have eq: "descend lessf xs n i = descend lessf xs n c"
      using False by (subst descend.simps) (simp add: c_def)
    show ?thesis unfolding eq using "1.IH"[OF False] unfolding c_def .
  qed
qed

lemma sift_leaf_below: "below pos (sift_leaf lessf xs n pos)"
  using descend_below[of pos lessf xs n] below_left[of pos "descend lessf xs n pos"]
  by (simp add: sift_leaf_def)

lemma sift_leaf_lt: "pos < n \<Longrightarrow> sift_leaf lessf xs n pos < n"
  using descend_lt[of pos n lessf xs] by (auto simp: sift_leaf_def)

lemma sift_leaf_is_leaf: "n \<le> sift_leaf lessf xs n pos * 2 + 1"
  using descend_stop[of n lessf xs pos] by (auto simp: sift_leaf_def)

text \<open>
  On a well-formed heap the index arithmetic of the descent stays within \<open>int\<close>: every
  index \<open>m\<close> that the descent from \<open>pos < nr\<close> visits lies between \<open>pos\<close> and its end, and
  \<open>m * 2 + 2\<close>, the largest value computed from it, does not exceed \<open>INT_MAX\<close>.
\<close>

lemma descent_in_int_range:
  assumes wf: "wf_heap h" and pos: "pos < nr h"
    and m: "below m (descend lessf (data h) (nr h) pos)"
  shows "m * 2 + 2 \<le> INT_MAX"
proof -
  from m have "m \<le> descend lessf (data h) (nr h) pos" by (rule below_le)
  also have "\<dots> < nr h" using pos by (rule descend_lt)
  finally have "m * 2 + 2 \<le> 2 * nr h" by simp
  with wf show ?thesis by (simp add: wf_heap_def)
qed

lemma sift_leaf_path:
  assumes asym: "\<forall>a b. lessf a b \<longrightarrow> \<not> lessf b a" and pos: "pos < n"
  shows "\<forall>m. below pos m \<and> m \<noteq> pos \<and> below m (sift_leaf lessf xs n pos) \<and> sib m < n
           \<longrightarrow> \<not> lessf (xs ! sib m) (xs ! m)"
proof (intro allI impI)
  fix m
  assume m: "below pos m \<and> m \<noteq> pos \<and> below m (sift_leaf lessf xs n pos) \<and> sib m < n"
  define e where "e = descend lessf xs n pos"
  have "\<forall>m. below pos m \<and> m \<noteq> pos \<and> below m pos \<longrightarrow> \<not> lessf (xs ! sib m) (xs ! m)"
    by (auto dest: below_antisym)
  from descend_spec[OF asym below_refl pos this]
  have path: "\<forall>m. below pos m \<and> m \<noteq> pos \<and> below m e \<longrightarrow> \<not> lessf (xs ! sib m) (xs ! m)"
    unfolding e_def by blast
  show "\<not> lessf (xs ! sib m) (xs ! m)"
  proof (cases "e * 2 + 2 = n")
    case False
    then have "sift_leaf lessf xs n pos = e" by (simp add: sift_leaf_def e_def)
    with m path show ?thesis by simp
  next
    case True
    then have sl: "sift_leaf lessf xs n pos = e * 2 + 1" by (simp add: sift_leaf_def e_def)
    show ?thesis
    proof (cases "m = e * 2 + 1")
      case True
      then have "sib m = e * 2 + 2" by (simp only: sib_left)
      with m \<open>e * 2 + 2 = n\<close> show ?thesis by simp
    next
      case False
      with m sl have "below m ((e * 2 + 1 - 1) div 2)" using below_parent[of m "e * 2 + 1"] by simp
      then have "below m e" by simp
      with m path show ?thesis by blast
    qed
  qed
qed

lemma swp_perm:
  assumes "i < n" "j < n" "n \<le> length xs"
  shows "mset (take n (swp xs i j)) = mset (take n xs)" and "drop n (swp xs i j) = drop n xs"
proof -
  have "take n (swp xs i j) = (take n xs)[i := take n xs ! j, j := take n xs ! i]"
    using assms by (simp add: swp_def take_update_swap)
  then show "mset (take n (swp xs i j)) = mset (take n xs)"
    using assms mset_swap[of j "take n xs" i] by simp
  show "drop n (swp xs i j) = drop n xs"
    using assms by (simp add: swp_def)
qed

lemma shift_perm:
  "below pos i \<Longrightarrow> below i j \<Longrightarrow> j < n \<Longrightarrow> n \<le> length ys \<Longrightarrow>
   \<exists>zs. shift ys pos j i = Some zs \<and> mset (take n zs) = mset (take n ys) \<and>
        drop n zs = drop n ys"
proof (induction i arbitrary: ys rule: less_induct)
  case (less i)
  show ?case
  proof (cases "i = pos")
    case True
    then show ?thesis by (subst shift.simps) simp
  next
    case False
    define p where "p = (i - 1) div 2"
    from False less.prems have "pos < i" using below_le[of pos i] by simp
    then have lt: "p < i" and i0: "0 < i" by (auto simp: p_def)
    from less.prems have ij: "i \<le> j" by (auto dest: below_le)
    from False less.prems have bp: "below pos p" unfolding p_def by (metis below_parent)
    have pi': "below p i" unfolding p_def using i0 by (rule below_up[rotated]) simp
    have pj: "below p j" using pi' less.prems(2) by (rule below_trans)
    have pn: "p < n" using lt ij less.prems(3) by simp
    have len: "n \<le> length (swp ys p j)" using less.prems(4) by simp
    from less.IH[OF lt bp pj less.prems(3) len] obtain zs where
      zs: "shift (swp ys p j) pos j p = Some zs"
        "mset (take n zs) = mset (take n (swp ys p j))" "drop n zs = drop n (swp ys p j)"
      by blast
    have "shift ys pos j i = Some zs"
      using False zs(1) by (subst shift.simps) (simp add: p_def)
    with zs(2,3) swp_perm[OF pn less.prems(3,4)] show ?thesis by simp
  qed
qed

lemma min_heapify_analysis:
  assumes pos: "pos < nr h" and len: "nr h \<le> length (data h)"
  shows "\<exists>j zs. backtrack lessf (data h) pos (sift_leaf lessf (data h) (nr h) pos) = Some j \<and>
     min_heapify lessf h pos = Some (h\<lparr>data := zs\<rparr>) \<and>
     below pos j \<and> below j (sift_leaf lessf (data h) (nr h) pos) \<and>
     (j \<noteq> pos \<longrightarrow> \<not> lessf (data h ! pos) (data h ! j)) \<and>
     (\<forall>m. below j m \<and> m \<noteq> j \<and> below m (sift_leaf lessf (data h) (nr h) pos)
         \<longrightarrow> lessf (data h ! pos) (data h ! m)) \<and>
     length zs = length (data h) \<and>
     zs ! j = data h ! pos \<and>
     (\<forall>m. below pos m \<and> m \<noteq> pos \<and> below m j \<longrightarrow> zs ! ((m - 1) div 2) = data h ! m) \<and>
     (\<forall>q. \<not> (below pos q \<and> below q j) \<longrightarrow> zs ! q = data h ! q) \<and>
     mset (take (nr h) zs) = mset (take (nr h) (data h)) \<and>
     drop (nr h) zs = drop (nr h) (data h)"
proof -
  define e where "e = sift_leaf lessf (data h) (nr h) pos"
  have pe: "below pos e" unfolding e_def by (rule sift_leaf_below)
  have en: "e < nr h" unfolding e_def using pos by (rule sift_leaf_lt)
  from backtrack_spec[OF pe, of lessf "data h"] obtain j where j:
    "backtrack lessf (data h) pos e = Some j" "below pos j" "below j e"
    "j \<noteq> pos \<longrightarrow> \<not> lessf (data h ! pos) (data h ! j)"
    "\<forall>m. below j m \<and> m \<noteq> j \<and> below m e \<longrightarrow> lessf (data h ! pos) (data h ! m)"
    by blast
  have jn: "j < nr h" using j(3) en below_le[of j e] by simp
  with len have jl: "j < length (data h)" by simp
  from shift_spec[OF j(2) below_refl jl] obtain zs where zs:
    "shift (data h) pos j j = Some zs" "length zs = length (data h)"
    "j = pos \<longrightarrow> zs = data h"
    "j \<noteq> pos \<longrightarrow> zs ! j = data h ! pos \<and> zs ! ((j - 1) div 2) = data h ! j"
    "\<forall>m. below pos m \<and> m \<noteq> pos \<and> below m j \<and> m \<noteq> j \<longrightarrow> zs ! ((m - 1) div 2) = data h ! m"
    "\<forall>q. q \<noteq> j \<and> \<not> (below pos q \<and> below q j \<and> q \<noteq> j) \<longrightarrow> zs ! q = data h ! q"
    by blast
  from shift_perm[OF j(2) below_refl jn len] zs(1) have perm:
    "mset (take (nr h) zs) = mset (take (nr h) (data h))"
    "drop (nr h) zs = drop (nr h) (data h)" by auto
  have mh: "min_heapify lessf h pos = Some (h\<lparr>data := zs\<rparr>)"
    using j(1) zs(1) by (simp add: min_heapify_unfold e_def)
  have zj: "zs ! j = data h ! pos" using zs(3,4) by (cases "j = pos") auto
  have up: "\<forall>m. below pos m \<and> m \<noteq> pos \<and> below m j \<longrightarrow> zs ! ((m - 1) div 2) = data h ! m"
  proof (intro allI impI)
    fix m assume m: "below pos m \<and> m \<noteq> pos \<and> below m j"
    show "zs ! ((m - 1) div 2) = data h ! m"
    proof (cases "m = j")
      case True
      with m zs(4) show ?thesis by simp
    next
      case False
      with m zs(5) show ?thesis by blast
    qed
  qed
  have same: "\<forall>q. \<not> (below pos q \<and> below q j) \<longrightarrow> zs ! q = data h ! q"
  proof (intro allI impI)
    fix q assume q: "\<not> (below pos q \<and> below q j)"
    with j(2) have "q \<noteq> j" by auto
    with q zs(6) show "zs ! q = data h ! q" by blast
  qed
  from j mh zs(2) zj up same perm show ?thesis unfolding e_def by blast
qed

lemma min_heapify_out_of_range:
  assumes "nr h \<le> pos"
  shows "min_heapify lessf h pos = Some h"
proof -
  have d: "descend lessf (data h) (nr h) pos = pos"
    using assms by (subst descend.simps) simp
  have sl: "sift_leaf lessf (data h) (nr h) pos = pos"
    using assms by (simp add: sift_leaf_def d)
  have b: "backtrack lessf (data h) pos pos = Some pos"
    by (subst backtrack.simps) simp
  have s: "shift (data h) pos pos pos = Some (data h)"
    by (subst shift.simps) simp
  show ?thesis by (simp add: min_heapify_unfold sl b s)
qed

lemma min_heapify_hp:
  assumes asym: "\<forall>a b. lessf a b \<longrightarrow> \<not> lessf b a"
    and trans: "\<forall>a b c. lessf a b \<longrightarrow> lessf b c \<longrightarrow> lessf a c"
    and pos: "pos < nr h" and len: "nr h \<le> length (data h)"
    and hp0: "hp lessf (data h) (nr h) (pos + 1)"
  shows "\<exists>zs. min_heapify lessf h pos = Some (h\<lparr>data := zs\<rparr>) \<and>
     length zs = length (data h) \<and>
     mset (take (nr h) zs) = mset (take (nr h) (data h)) \<and>
     drop (nr h) zs = drop (nr h) (data h) \<and>
     hp lessf zs (nr h) pos"
proof -
  define e where "e = sift_leaf lessf (data h) (nr h) pos"
  from min_heapify_analysis[OF pos len, of lessf] obtain j zs where r:
    "min_heapify lessf h pos = Some (h\<lparr>data := zs\<rparr>)"
    "below pos j" "below j e"
    "j \<noteq> pos \<longrightarrow> \<not> lessf (data h ! pos) (data h ! j)"
    "\<forall>m. below j m \<and> m \<noteq> j \<and> below m e \<longrightarrow> lessf (data h ! pos) (data h ! m)"
    "length zs = length (data h)"
    "zs ! j = data h ! pos"
    "\<forall>m. below pos m \<and> m \<noteq> pos \<and> below m j \<longrightarrow> zs ! ((m - 1) div 2) = data h ! m"
    "\<forall>q. \<not> (below pos q \<and> below q j) \<longrightarrow> zs ! q = data h ! q"
    "mset (take (nr h) zs) = mset (take (nr h) (data h))"
    "drop (nr h) zs = drop (nr h) (data h)"
    unfolding e_def by blast
  have en: "e < nr h" unfolding e_def using pos by (rule sift_leaf_lt)
  have leaf: "nr h \<le> e * 2 + 1" unfolding e_def by (rule sift_leaf_is_leaf)
  have path: "\<forall>m. below pos m \<and> m \<noteq> pos \<and> below m e \<and> sib m < nr h
                 \<longrightarrow> \<not> lessf (data h ! sib m) (data h ! m)"
    unfolding e_def using asym pos by (rule sift_leaf_path)
  have "hp lessf zs (nr h) pos"
    by (rule rotate_hp[OF asym trans r(2,3) en leaf path r(4,5,7,8,9) hp0])
  with r(1,6,10,11) show ?thesis by blast
qed

lemma heapify_all_loop_hp:
  "(\<forall>a b. lessf a b \<longrightarrow> \<not> lessf b a) \<Longrightarrow> (\<forall>a b c. lessf a b \<longrightarrow> lessf b c \<longrightarrow> lessf a c) \<Longrightarrow>
   nr h \<le> length (data h) \<Longrightarrow> i < int (nr h) \<Longrightarrow> hp lessf (data h) (nr h) (nat (i + 1)) \<Longrightarrow>
   \<exists>zs. heapify_all_loop lessf h i = Some (h\<lparr>data := zs\<rparr>) \<and>
     length zs = length (data h) \<and>
     mset (take (nr h) zs) = mset (take (nr h) (data h)) \<and>
     drop (nr h) zs = drop (nr h) (data h) \<and>
     hp lessf zs (nr h) 0"
proof (induction lessf h i rule: heapify_all_loop.induct)
  case (1 lessf h i)
  show ?case
  proof (cases "i \<ge> 0")
    case False
    then have "heapify_all_loop lessf h i = Some (h\<lparr>data := data h\<rparr>)"
      by (subst heapify_all_loop.simps) simp
    moreover from False "1.prems"(5) have "hp lessf (data h) (nr h) 0" by simp
    ultimately show ?thesis by blast
  next
    case True
    then have pos: "nat i < nr h" and suc: "nat (i + 1) = nat i + 1" using "1.prems"(4) by auto
    from min_heapify_hp[OF "1.prems"(1,2) pos "1.prems"(3)] "1.prems"(5) suc obtain zs where zs:
      "min_heapify lessf h (nat i) = Some (h\<lparr>data := zs\<rparr>)"
      "length zs = length (data h)"
      "mset (take (nr h) zs) = mset (take (nr h) (data h))"
      "drop (nr h) zs = drop (nr h) (data h)"
      "hp lessf zs (nr h) (nat i)" by auto
    let ?h = "h\<lparr>data := zs\<rparr>"
    have a: "nr ?h \<le> length (data ?h)" using "1.prems"(3) zs(2) by simp
    have b: "i - 1 < int (nr ?h)" using "1.prems"(4) by simp
    have c: "hp lessf (data ?h) (nr ?h) (nat (i - 1 + 1))" using zs(5) by simp
    from "1.IH"[OF True zs(1) "1.prems"(1,2) a b c] obtain zs' where zs':
      "heapify_all_loop lessf ?h (i - 1) = Some (h\<lparr>data := zs'\<rparr>)"
      "length zs' = length zs"
      "mset (take (nr h) zs') = mset (take (nr h) zs)"
      "drop (nr h) zs' = drop (nr h) zs"
      "hp lessf zs' (nr h) 0" by auto
    have "heapify_all_loop lessf h i = Some (h\<lparr>data := zs'\<rparr>)"
      using True zs(1) zs'(1) by (subst heapify_all_loop.simps) simp
    with zs zs' show ?thesis by auto
  qed
qed

lemma min_heapify_all_hp:
  assumes asym: "\<forall>a b. lessf a b \<longrightarrow> \<not> lessf b a"
    and trans: "\<forall>a b c. lessf a b \<longrightarrow> lessf b c \<longrightarrow> lessf a c"
    and len: "nr h \<le> length (data h)"
  shows "\<exists>zs. min_heapify_all lessf h = Some (h\<lparr>data := zs\<rparr>) \<and>
     length zs = length (data h) \<and>
     mset (take (nr h) zs) = mset (take (nr h) (data h)) \<and>
     drop (nr h) zs = drop (nr h) (data h) \<and>
     hp lessf zs (nr h) 0"
proof -
  have a: "int (nr h) div 2 - 1 < int (nr h)" by simp
  have "nat (int (nr h) div 2 - 1 + 1) = nr h div 2" by (simp add: nat_div_distrib)
  moreover have "hp lessf (data h) (nr h) (nr h div 2)" unfolding hp_def by auto
  ultimately have b: "hp lessf (data h) (nr h) (nat (int (nr h) div 2 - 1 + 1))" by simp
  show ?thesis unfolding min_heapify_all_def
    by (rule heapify_all_loop_hp[OF asym trans len a b])
qed

section \<open>The sift-up\<close>

lemma heap_property_hp: "heap_property lessf h \<longleftrightarrow> hp lessf (data h) (nr h) 0"
proof
  assume a: "heap_property lessf h"
  show "hp lessf (data h) (nr h) 0"
    unfolding hp_def
  proof (intro allI impI)
    fix c assume c: "2 * 0 < c \<and> c < nr h"
    define i where "i = (c - 1) div 2"
    from c have "i < nr h" and cc: "c = 2 * i + 1 \<or> c = 2 * i + 2" by (auto simp: i_def)
    with a have
      "(2 * i + 1 < nr h \<longrightarrow> \<not> lessf (data h ! (2 * i + 1)) (data h ! i)) \<and>
       (2 * i + 2 < nr h \<longrightarrow> \<not> lessf (data h ! (2 * i + 2)) (data h ! i))"
      by (simp add: heap_property_def)
    with cc c show "\<not> lessf (data h ! c) (data h ! ((c - 1) div 2))"
      unfolding i_def[symmetric] by auto
  qed
next
  assume a: "hp lessf (data h) (nr h) 0"
  show "heap_property lessf h"
    unfolding heap_property_def
  proof (intro ballI conjI impI)
    fix i assume "2 * i + 1 < nr h"
    with a have "\<not> lessf (data h ! (2 * i + 1)) (data h ! ((2 * i + 1 - 1) div 2))"
      unfolding hp_def by (metis mult_zero_right zero_less_Suc Suc_eq_plus1)
    then show "\<not> lessf (data h ! (2 * i + 1)) (data h ! i)" by simp
  next
    fix i assume "2 * i + 2 < nr h"
    with a have "\<not> lessf (data h ! (2 * i + 2)) (data h ! ((2 * i + 2 - 1) div 2))"
      unfolding hp_def by (metis mult_zero_right zero_less_Suc add_2_eq_Suc')
    then show "\<not> lessf (data h ! (2 * i + 2)) (data h ! i)" by simp
  qed
qed

lemma sift_up_spec:
  "(\<forall>a b. lessf a b \<longrightarrow> \<not> lessf b a) \<Longrightarrow>
   (\<forall>a b c. \<not> lessf a b \<longrightarrow> \<not> lessf b c \<longrightarrow> \<not> lessf a c) \<Longrightarrow>
   pos < n \<Longrightarrow> n \<le> length xs \<Longrightarrow>
   (\<forall>c. 0 < c \<and> c < n \<and> c \<noteq> pos \<longrightarrow> \<not> lessf (xs ! c) (xs ! ((c - 1) div 2))) \<Longrightarrow>
   (\<forall>c. 0 < pos \<and> 0 < c \<and> c < n \<and> (c - 1) div 2 = pos
        \<longrightarrow> \<not> lessf (xs ! c) (xs ! ((pos - 1) div 2))) \<Longrightarrow>
   hp lessf (sift_up lessf xs pos) n 0 \<and> length (sift_up lessf xs pos) = length xs \<and>
   mset (take n (sift_up lessf xs pos)) = mset (take n xs) \<and>
   drop n (sift_up lessf xs pos) = drop n xs"
proof (induction lessf xs pos rule: sift_up.induct)
  case (1 lessf xs pos)
  note asym = "1.prems"(1) and ntr = "1.prems"(2) and posn = "1.prems"(3)
    and len = "1.prems"(4) and a = "1.prems"(5) and b = "1.prems"(6)
  define p where "p = (pos - 1) div 2"
  show ?case
  proof (cases "pos > 0")
    case False
    then have "sift_up lessf xs pos = xs" by (subst sift_up.simps) simp
    moreover from False a have "hp lessf xs n 0" unfolding hp_def by auto
    ultimately show ?thesis by simp
  next
    case True
    then have pp: "p < pos" by (auto simp: p_def)
    show ?thesis
    proof (cases "lessf (xs ! p) (xs ! pos)")
      case lt: True
      then have eq: "sift_up lessf xs pos = xs" using True by (subst sift_up.simps) (simp add: p_def)
      have "hp lessf xs n 0" unfolding hp_def
      proof (intro allI impI)
        fix c assume c: "2 * 0 < c \<and> c < n"
        show "\<not> lessf (xs ! c) (xs ! ((c - 1) div 2))"
        proof (cases "c = pos")
          case True
          with lt asym show ?thesis by (auto simp: p_def)
        next
          case False
          with c a show ?thesis by auto
        qed
      qed
      with eq show ?thesis by simp
    next
      case nlt: False
      define xs' where "xs' = swp xs p pos"
      have eq: "sift_up lessf xs pos = sift_up lessf xs' p"
        using True nlt by (subst sift_up.simps) (simp add: p_def xs'_def)
      have pl: "p < length xs" and posl: "pos < length xs" using pp posn len by auto
      have nth': "xs' ! k = (if k = pos then xs ! p else if k = p then xs ! pos else xs ! k)" for k
        unfolding xs'_def using pl posl by (rule swp_nth)
      have pn: "p < n" using pp posn by simp
      have len': "n \<le> length xs'" using len by (simp add: xs'_def)
      have a': "\<forall>c. 0 < c \<and> c < n \<and> c \<noteq> p \<longrightarrow> \<not> lessf (xs' ! c) (xs' ! ((c - 1) div 2))"
      proof (intro allI impI)
        fix c assume c: "0 < c \<and> c < n \<and> c \<noteq> p"
        define q where "q = (c - 1) div 2"
        have qc: "q < c" using c by (auto simp: q_def)
        show "\<not> lessf (xs' ! c) (xs' ! ((c - 1) div 2))"
          unfolding q_def[symmetric]
        proof (cases "c = pos")
          case True
          then have "q = p" by (simp add: q_def p_def)
          with True nlt nth'[of pos] nth'[of p] pp show "\<not> lessf (xs' ! c) (xs' ! q)" by simp
        next
          case cpos: False
          with c have xc: "xs' ! c = xs ! c" using nth'[of c] by simp
          from c cpos a have ac: "\<not> lessf (xs ! c) (xs ! q)" unfolding q_def by blast
          show "\<not> lessf (xs' ! c) (xs' ! q)"
          proof (cases "q = pos")
            case True
            with c b have "\<not> lessf (xs ! c) (xs ! p)" using \<open>0 < pos\<close> unfolding q_def p_def by blast
            with True xc nth'[of pos] show ?thesis by simp
          next
            case qpos: False
            show ?thesis
            proof (cases "q = p")
              case True
              from ac True ntr nlt have "\<not> lessf (xs ! c) (xs ! pos)" by blast
              with True xc nth'[of p] pp show ?thesis by simp
            next
              case False
              with qpos ac xc nth'[of q] show ?thesis by simp
            qed
          qed
        qed
      qed
      have b': "\<forall>c. 0 < p \<and> 0 < c \<and> c < n \<and> (c - 1) div 2 = p
                  \<longrightarrow> \<not> lessf (xs' ! c) (xs' ! ((p - 1) div 2))"
      proof (intro allI impI)
        fix c assume c: "0 < p \<and> 0 < c \<and> c < n \<and> (c - 1) div 2 = p"
        define g where "g = (p - 1) div 2"
        from c have "0 < p" by simp
        then have gp: "g < p" unfolding g_def by simp
        with pp have xg: "xs' ! g = xs ! g" using nth'[of g] by simp
        from c pn pp a have pg: "\<not> lessf (xs ! p) (xs ! g)" unfolding g_def by auto
        show "\<not> lessf (xs' ! c) (xs' ! ((p - 1) div 2))"
          unfolding g_def[symmetric]
        proof (cases "c = pos")
          case True
          with pg xg nth'[of pos] show "\<not> lessf (xs' ! c) (xs' ! g)" by simp
        next
          case False
          from c have "c \<noteq> p" by auto
          with False have xc: "xs' ! c = xs ! c" using nth'[of c] by simp
          from c False a have "\<not> lessf (xs ! c) (xs ! p)" by auto
          with pg ntr have "\<not> lessf (xs ! c) (xs ! g)" by blast
          with xc xg show "\<not> lessf (xs' ! c) (xs' ! g)" by simp
        qed
      qed
      from "1.IH"[OF True nlt[unfolded p_def] asym ntr _ _ _ _, folded p_def xs'_def, OF pn len' a' b']
      have IH: "hp lessf (sift_up lessf xs' p) n 0 \<and>
        length (sift_up lessf xs' p) = length xs' \<and>
        mset (take n (sift_up lessf xs' p)) = mset (take n xs') \<and>
        drop n (sift_up lessf xs' p) = drop n xs'" .
      from swp_perm[OF pn posn len] have "mset (take n xs') = mset (take n xs)"
        "drop n xs' = drop n xs" by (simp_all add: xs'_def)
      with IH show ?thesis unfolding eq by (simp add: xs'_def)
    qed
  qed
qed

section \<open>The operations on a well-formed heap\<close>

lemma so_asym: "strict_order lessf \<Longrightarrow> \<forall>a b. lessf a b \<longrightarrow> \<not> lessf b a"
  unfolding strict_order_def by blast

lemma so_trans: "strict_order lessf \<Longrightarrow> \<forall>a b c. lessf a b \<longrightarrow> lessf b c \<longrightarrow> lessf a c"
  unfolding strict_order_def by blast

lemma swo_so: "strict_weak_order lessf \<Longrightarrow> strict_order lessf"
  unfolding strict_order_def strict_weak_order_def by blast

lemma swo_asym: "strict_weak_order lessf \<Longrightarrow> \<forall>a b. lessf a b \<longrightarrow> \<not> lessf b a"
  unfolding strict_weak_order_def by blast

lemma swo_trans: "strict_weak_order lessf \<Longrightarrow> \<forall>a b c. lessf a b \<longrightarrow> lessf b c \<longrightarrow> lessf a c"
  unfolding strict_weak_order_def by blast

lemma swo_ntrans:
  "strict_weak_order lessf \<Longrightarrow> \<forall>a b c. \<not> lessf a b \<longrightarrow> \<not> lessf b c \<longrightarrow> \<not> lessf a c"
  unfolding strict_weak_order_def by blast

lemma min_heap_push_ok:
  assumes swo: "strict_weak_order lessf" and wf: "wf_heap h" and room: "nr h < size_h h"
    and hp: "heap_property lessf h"
  shows "\<exists>h'. min_heap_push lessf h e = (None, h') \<and> wf_heap h' \<and> nr h' = nr h + 1 \<and>
     size_h h' = size_h h \<and> length (data h') = length (data h) \<and>
     mset (live h') = add_mset e (mset (live h)) \<and> heap_property lessf h'"
proof -
  define n where "n = nr h"
  define xs where "xs = (data h)[n := e]"
  define h' where "h' = h\<lparr>data := sift_up lessf xs n, nr := n + 1\<rparr>"
  have nl: "n < length (data h)" using wf room by (simp add: wf_heap_def INT_MAX_def n_def)
  have push: "min_heap_push lessf h e = (None, h')"
    using room by (simp add: min_heap_push_def Let_def h'_def xs_def n_def)
  have len: "n + 1 \<le> length xs" using nl by (simp add: xs_def)
  from hp have hp0: "hp lessf (data h) n 0" by (simp add: heap_property_hp n_def)
  have a: "\<forall>c. 0 < c \<and> c < n + 1 \<and> c \<noteq> n \<longrightarrow> \<not> lessf (xs ! c) (xs ! ((c - 1) div 2))"
  proof (intro allI impI)
    fix c assume c: "0 < c \<and> c < n + 1 \<and> c \<noteq> n"
    then have "c < n" "(c - 1) div 2 < n" by auto
    then have "xs ! c = data h ! c" "xs ! ((c - 1) div 2) = data h ! ((c - 1) div 2)"
      by (simp_all add: xs_def)
    with hp0 c \<open>c < n\<close> show "\<not> lessf (xs ! c) (xs ! ((c - 1) div 2))"
      unfolding hp_def by simp
  qed
  have b: "\<forall>c. 0 < n \<and> 0 < c \<and> c < n + 1 \<and> (c - 1) div 2 = n
             \<longrightarrow> \<not> lessf (xs ! c) (xs ! ((n - 1) div 2))"
    by auto
  from sift_up_spec[OF swo_asym[OF swo] swo_ntrans[OF swo] _ len a b]
  have r: "hp lessf (sift_up lessf xs n) (n + 1) 0"
    "length (sift_up lessf xs n) = length xs"
    "mset (take (n + 1) (sift_up lessf xs n)) = mset (take (n + 1) xs)"
    by simp_all
  have "take (n + 1) xs = take n (data h) @ [e]"
    using nl by (simp add: xs_def take_Suc_conv_app_nth)
  with r(3) have ms: "mset (live h') = add_mset e (mset (live h))"
    by (simp add: live_def h'_def n_def)
  have "heap_property lessf h'" using r(1) by (simp add: heap_property_hp h'_def)
  moreover have "wf_heap h'" using wf room r(2) by (simp add: wf_heap_def INT_MAX_def h'_def xs_def n_def)
  ultimately show ?thesis using push ms r(2) by (auto simp: h'_def xs_def n_def)
qed

lemma take_pop_mset:
  assumes "0 < n" "n \<le> length xs"
  shows "mset (take (n - 1) (xs[0 := xs ! (n - 1)])) = mset (take n xs) - {#xs ! 0#}"
proof (cases "n = 1")
  case True
  with assms show ?thesis by (cases xs) auto
next
  case False
  with assms obtain k where k: "n = Suc (Suc k)" by (cases n; cases "n - 1") auto
  from assms k obtain x ys where xs: "xs = x # ys" by (cases xs) auto
  with assms k have kl: "Suc k \<le> length ys" by simp
  have "take n xs = x # take k ys @ [ys ! k]"
    using kl by (simp add: xs k take_Suc_conv_app_nth)
  moreover have "take (n - 1) (xs[0 := xs ! (n - 1)]) = ys ! k # take k ys"
    by (simp add: xs k)
  ultimately show ?thesis by (simp add: xs)
qed

lemma take_replace_mset:
  assumes "0 < n" "n \<le> length xs"
  shows "mset (take n (xs[0 := e])) = add_mset e (mset (take n xs) - {#xs ! 0#})"
proof -
  from assms obtain x ys where xs: "xs = x # ys" by (cases xs) auto
  from assms obtain k where k: "n = Suc k" by (cases n) auto
  show ?thesis by (simp add: xs k)
qed

lemma min_heapify_root_ok:
  assumes asym: "\<forall>a b. lessf a b \<longrightarrow> \<not> lessf b a"
    and trans: "\<forall>a b c. lessf a b \<longrightarrow> lessf b c \<longrightarrow> lessf a c"
    and len: "nr h \<le> length (data h)"
    and hp1: "hp lessf (data h) (nr h) 1"
  shows "\<exists>zs. min_heapify lessf h 0 = Some (h\<lparr>data := zs\<rparr>) \<and>
     length zs = length (data h) \<and>
     mset (take (nr h) zs) = mset (take (nr h) (data h)) \<and>
     drop (nr h) zs = drop (nr h) (data h) \<and>
     hp lessf zs (nr h) 0"
proof (cases "0 < nr h")
  case True
  from min_heapify_hp[OF asym trans True len] hp1 show ?thesis by simp
next
  case False
  then have "min_heapify lessf h 0 = Some (h\<lparr>data := data h\<rparr>)"
    using min_heapify_out_of_range[of h 0 lessf] by simp
  moreover from False have "hp lessf (data h) (nr h) 0" unfolding hp_def by simp
  ultimately show ?thesis by blast
qed

lemma min_heap_pop_ok:
  assumes asym: "\<forall>a b. lessf a b \<longrightarrow> \<not> lessf b a"
    and trans: "\<forall>a b c. lessf a b \<longrightarrow> lessf b c \<longrightarrow> lessf a c"
    and wf: "wf_heap h" and ne: "0 < nr h" and hp: "heap_property lessf h"
  shows "\<exists>h'. min_heap_pop lessf h = Some (None, h') \<and> wf_heap h' \<and> nr h' = nr h - 1 \<and>
     size_h h' = size_h h \<and> length (data h') = length (data h) \<and>
     mset (live h') = mset (live h) - {#data h ! 0#} \<and> heap_property lessf h'"
proof -
  define n where "n = nr h"
  define xs where "xs = (data h)[0 := data h ! (n - 1)]"
  define h1 where "h1 = h\<lparr>nr := n - 1, data := xs\<rparr>"
  have nl: "n \<le> length (data h)" using wf by (simp add: wf_heap_def INT_MAX_def n_def)
  have pop: "min_heap_pop lessf h = map_option (Pair None) (min_heapify lessf h1 0)"
    using ne by (simp add: min_heap_pop_def Let_def h1_def xs_def n_def)
  from hp have hp0: "hp lessf (data h) n 0" by (simp add: heap_property_hp n_def)
  have hp1: "hp lessf (data h1) (nr h1) 1"
    unfolding hp_def
  proof (intro allI impI)
    fix c assume c: "2 * 1 < c \<and> c < nr h1"
    then have "c \<noteq> 0" "(c - 1) div 2 \<noteq> 0" "c < n" by (auto simp: h1_def)
    with hp0 show "\<not> lessf (data h1 ! c) (data h1 ! ((c - 1) div 2))"
      unfolding hp_def by (simp add: h1_def xs_def)
  qed
  have len1: "nr h1 \<le> length (data h1)" using nl by (simp add: h1_def xs_def)
  from min_heapify_root_ok[OF asym trans len1 hp1] obtain zs where zs:
    "min_heapify lessf h1 0 = Some (h1\<lparr>data := zs\<rparr>)"
    "length zs = length (data h1)"
    "mset (take (nr h1) zs) = mset (take (nr h1) (data h1))"
    "hp lessf zs (nr h1) 0" by blast
  define h' where "h' = h1\<lparr>data := zs\<rparr>"
  have "mset (take (n - 1) xs) = mset (take n (data h)) - {#data h ! 0#}"
    unfolding xs_def using ne nl by (intro take_pop_mset) (simp_all add: n_def)
  with zs(3) have ms: "mset (live h') = mset (live h) - {#data h ! 0#}"
    by (simp add: live_def h'_def h1_def n_def)
  have "heap_property lessf h'" using zs(4) by (simp add: heap_property_hp h'_def)
  moreover have "wf_heap h'" using wf zs(2) by (auto simp: wf_heap_def INT_MAX_def h'_def h1_def xs_def n_def)
  moreover have "min_heap_pop lessf h = Some (None, h')" using pop zs(1) by (simp add: h'_def)
  ultimately show ?thesis using ms zs(2) by (auto simp: h'_def h1_def xs_def n_def)
qed

lemma min_heap_pop_push_ok:
  assumes asym: "\<forall>a b. lessf a b \<longrightarrow> \<not> lessf b a"
    and trans: "\<forall>a b c. lessf a b \<longrightarrow> lessf b c \<longrightarrow> lessf a c"
    and wf: "wf_heap h" and ne: "0 < nr h" and hp: "heap_property lessf h"
  shows "\<exists>h'. min_heap_pop_push lessf h e = Some h' \<and> wf_heap h' \<and> nr h' = nr h \<and>
     size_h h' = size_h h \<and> length (data h') = length (data h) \<and>
     mset (live h') = add_mset e (mset (live h) - {#data h ! 0#}) \<and> heap_property lessf h'"
proof -
  define n where "n = nr h"
  define xs where "xs = (data h)[0 := e]"
  define h1 where "h1 = h\<lparr>data := xs\<rparr>"
  have nl: "n \<le> length (data h)" using wf by (simp add: wf_heap_def INT_MAX_def n_def)
  have pp: "min_heap_pop_push lessf h e = min_heapify lessf h1 0"
    by (simp add: min_heap_pop_push_def h1_def xs_def)
  from hp have hp0: "hp lessf (data h) n 0" by (simp add: heap_property_hp n_def)
  have hp1: "hp lessf (data h1) (nr h1) 1"
    unfolding hp_def
  proof (intro allI impI)
    fix c assume c: "2 * 1 < c \<and> c < nr h1"
    then have "c \<noteq> 0" "(c - 1) div 2 \<noteq> 0" "c < n" by (auto simp: h1_def n_def)
    with hp0 show "\<not> lessf (data h1 ! c) (data h1 ! ((c - 1) div 2))"
      unfolding hp_def by (simp add: h1_def xs_def)
  qed
  have len1: "nr h1 \<le> length (data h1)" using nl by (simp add: h1_def xs_def n_def)
  from min_heapify_root_ok[OF asym trans len1 hp1] obtain zs where zs:
    "min_heapify lessf h1 0 = Some (h1\<lparr>data := zs\<rparr>)"
    "length zs = length (data h1)"
    "mset (take (nr h1) zs) = mset (take (nr h1) (data h1))"
    "hp lessf zs (nr h1) 0" by blast
  define h' where "h' = h1\<lparr>data := zs\<rparr>"
  have "mset (take n xs) = add_mset e (mset (take n (data h)) - {#data h ! 0#})"
    unfolding xs_def using ne nl by (intro take_replace_mset) (simp_all add: n_def)
  with zs(3) have ms: "mset (live h') = add_mset e (mset (live h) - {#data h ! 0#})"
    by (simp add: live_def h'_def h1_def n_def)
  have "heap_property lessf h'" using zs(4) by (simp add: heap_property_hp h'_def)
  moreover have "wf_heap h'" using wf zs(2) by (simp add: wf_heap_def INT_MAX_def h'_def h1_def xs_def)
  moreover have "min_heap_pop_push lessf h e = Some h'" using pp zs(1) by (simp add: h'_def)
  ultimately show ?thesis using ms zs(2) by (auto simp: h'_def h1_def xs_def n_def)
qed

lemma min_heapify_all_ok:
  assumes asym: "\<forall>a b. lessf a b \<longrightarrow> \<not> lessf b a"
    and trans: "\<forall>a b c. lessf a b \<longrightarrow> lessf b c \<longrightarrow> lessf a c"
    and wf: "wf_heap h"
  shows "\<exists>h'. min_heapify_all lessf h = Some h' \<and> wf_heap h' \<and> nr h' = nr h \<and>
     size_h h' = size_h h \<and> length (data h') = length (data h) \<and>
     mset (live h') = mset (live h) \<and> drop (nr h) (data h') = drop (nr h) (data h) \<and>
     heap_property lessf h'"
proof -
  have len: "nr h \<le> length (data h)" using wf by (simp add: wf_heap_def INT_MAX_def)
  from min_heapify_all_hp[OF asym trans len] obtain zs where zs:
    "min_heapify_all lessf h = Some (h\<lparr>data := zs\<rparr>)"
    "length zs = length (data h)"
    "mset (take (nr h) zs) = mset (take (nr h) (data h))"
    "drop (nr h) zs = drop (nr h) (data h)"
    "hp lessf zs (nr h) 0" by blast
  have "heap_property lessf (h\<lparr>data := zs\<rparr>)" using zs(5) by (simp add: heap_property_hp)
  moreover have "wf_heap (h\<lparr>data := zs\<rparr>)" using wf zs(2) by (simp add: wf_heap_def INT_MAX_def)
  ultimately show ?thesis using zs by (auto simp: live_def)
qed

lemma min_heapify_perm:
  assumes len: "nr h \<le> length (data h)"
  shows "\<exists>zs. min_heapify lessf h pos = Some (h\<lparr>data := zs\<rparr>) \<and>
     length zs = length (data h) \<and>
     mset (take (nr h) zs) = mset (take (nr h) (data h)) \<and>
     drop (nr h) zs = drop (nr h) (data h)"
proof (cases "pos < nr h")
  case True
  from min_heapify_analysis[OF True len, of lessf] show ?thesis by blast
next
  case False
  then have "min_heapify lessf h pos = Some (h\<lparr>data := data h\<rparr>)"
    using min_heapify_out_of_range[of h pos lessf] by simp
  then show ?thesis by blast
qed

lemma heapify_all_loop_perm:
  "nr h \<le> length (data h) \<Longrightarrow>
   \<exists>zs. heapify_all_loop lessf h i = Some (h\<lparr>data := zs\<rparr>) \<and>
     length zs = length (data h) \<and>
     mset (take (nr h) zs) = mset (take (nr h) (data h)) \<and>
     drop (nr h) zs = drop (nr h) (data h)"
proof (induction lessf h i rule: heapify_all_loop.induct)
  case (1 lessf h i)
  show ?case
  proof (cases "i \<ge> 0")
    case False
    then have "heapify_all_loop lessf h i = Some (h\<lparr>data := data h\<rparr>)"
      by (subst heapify_all_loop.simps) simp
    then show ?thesis by blast
  next
    case True
    from min_heapify_perm[OF "1.prems", of lessf "nat i"] obtain zs where zs:
      "min_heapify lessf h (nat i) = Some (h\<lparr>data := zs\<rparr>)"
      "length zs = length (data h)"
      "mset (take (nr h) zs) = mset (take (nr h) (data h))"
      "drop (nr h) zs = drop (nr h) (data h)" by blast
    let ?h = "h\<lparr>data := zs\<rparr>"
    have a: "nr ?h \<le> length (data ?h)" using "1.prems" zs(2) by simp
    from "1.IH"[OF True zs(1) a] obtain zs' where zs':
      "heapify_all_loop lessf ?h (i - 1) = Some (h\<lparr>data := zs'\<rparr>)"
      "length zs' = length zs"
      "mset (take (nr h) zs') = mset (take (nr h) zs)"
      "drop (nr h) zs' = drop (nr h) zs" by auto
    have "heapify_all_loop lessf h i = Some (h\<lparr>data := zs'\<rparr>)"
      using True zs(1) zs'(1) by (subst heapify_all_loop.simps) simp
    with zs zs' show ?thesis by auto
  qed
qed

lemma apply_op_ok:
  assumes so: "strict_order lessf" and swo: "strict_weak_order lessf \<or> (\<forall>e. x \<noteq> Push e)"
    and wf: "wf_heap h" and hp: "heap_property lessf h" and v: "valid_op h x"
  shows "\<exists>h'. apply_op lessf h x = Some h' \<and> wf_heap h' \<and> heap_property lessf h'"
proof (cases x)
  case (Push e)
  with swo have swo': "strict_weak_order lessf" by simp
  from Push v have "nr h < size_h h" by simp
  from min_heap_push_ok[OF swo' wf this hp, of e] Push show ?thesis by auto
next
  case Pop
  with v have "0 < nr h" by simp
  from min_heap_pop_ok[OF so_asym[OF so] so_trans[OF so] wf this hp] Pop show ?thesis by auto
next
  case (Pop_push e)
  with v have "0 < nr h" by simp
  from min_heap_pop_push_ok[OF so_asym[OF so] so_trans[OF so] wf this hp, of e] Pop_push
  show ?thesis by auto
next
  case Heapify_all
  from min_heapify_all_ok[OF so_asym[OF so] so_trans[OF so] wf] Heapify_all
  show ?thesis by auto
qed

lemma run_ok:
  "strict_order lessf \<Longrightarrow> strict_weak_order lessf \<or> (\<forall>e. Push e \<notin> set ops) \<Longrightarrow>
   wf_heap h \<Longrightarrow> heap_property lessf h \<Longrightarrow> all_valid lessf h ops \<Longrightarrow>
   \<exists>hs. run lessf h ops = Some hs \<and> length hs = length ops \<and>
     (\<forall>s \<in> set hs. wf_heap s \<and> heap_property lessf s)"
proof (induction ops arbitrary: h)
  case Nil
  then show ?case by simp
next
  case (Cons x ops)
  from Cons.prems(5) have v: "valid_op h x" by simp
  from Cons.prems(2) have o: "strict_weak_order lessf \<or> (\<forall>e. x \<noteq> Push e)"
    and os: "strict_weak_order lessf \<or> (\<forall>e. Push e \<notin> set ops)" by auto
  from apply_op_ok[OF Cons.prems(1) o Cons.prems(3,4) v] obtain h' where h':
    "apply_op lessf h x = Some h'" "wf_heap h'" "heap_property lessf h'" by blast
  with Cons.prems(5) have "all_valid lessf h' ops" by simp
  from Cons.IH[OF Cons.prems(1) os h'(2,3) this] obtain hs where hs:
    "run lessf h' ops = Some hs" "length hs = length ops"
    "\<forall>s \<in> set hs. wf_heap s \<and> heap_property lessf s" by blast
  have "run lessf h (x # ops) = Some (h' # hs)" using h'(1) hs(1) by simp
  with h'(2,3) hs(2,3) show ?case by simp
qed

lemma root_min:
  assumes irr: "\<forall>a. \<not> lessf a a"
    and ntr: "\<forall>a b c. \<not> lessf a b \<longrightarrow> \<not> lessf b c \<longrightarrow> \<not> lessf a c"
    and hp0: "hp lessf xs n 0"
  shows "c < n \<Longrightarrow> \<not> lessf (xs ! c) (xs ! 0)"
proof (induction c rule: less_induct)
  case (less c)
  show ?case
  proof (cases "c = 0")
    case True
    with irr show ?thesis by simp
  next
    case False
    then have "(c - 1) div 2 < c" by auto
    with less have "\<not> lessf (xs ! ((c - 1) div 2)) (xs ! 0)" by simp
    moreover from hp0 False less.prems have "\<not> lessf (xs ! c) (xs ! ((c - 1) div 2))"
      unfolding hp_def by simp
    ultimately show ?thesis using ntr by blast
  qed
qed

lemma root_min_live:
  assumes swo: "strict_weak_order lessf" and wf: "wf_heap h" and hp: "heap_property lessf h"
  shows "\<forall>x \<in> set (live h). \<not> lessf x (data h ! 0)"
proof
  fix x assume "x \<in> set (live h)"
  then obtain c where c: "c < length (live h)" "x = live h ! c" by (auto simp: in_set_conv_nth)
  then have cn: "c < nr h" by (simp add: live_def)
  with c have "x = data h ! c" by (simp add: live_def)
  moreover from swo have "\<forall>a. \<not> lessf a a" by (simp add: strict_weak_order_def)
  ultimately show "\<not> lessf x (data h ! 0)"
    using root_min[OF _ swo_ntrans[OF swo] hp[unfolded heap_property_hp] cn] by simp
qed

lemma push_all_ok:
  "strict_weak_order lessf \<Longrightarrow> wf_heap h \<Longrightarrow> heap_property lessf h \<Longrightarrow>
   nr h + length es \<le> size_h h \<Longrightarrow>
   wf_heap (push_all lessf h es) \<and> heap_property lessf (push_all lessf h es) \<and>
   nr (push_all lessf h es) = nr h + length es \<and>
   size_h (push_all lessf h es) = size_h h \<and>
   mset (live (push_all lessf h es)) = mset (live h) + mset es"
proof (induction es arbitrary: h)
  case Nil
  then show ?case by simp
next
  case (Cons e es)
  from Cons.prems(4) have room: "nr h < size_h h" by simp
  from min_heap_push_ok[OF Cons.prems(1,2) room Cons.prems(3), of e] obtain h' where h':
    "min_heap_push lessf h e = (None, h')" "wf_heap h'" "nr h' = nr h + 1"
    "size_h h' = size_h h" "mset (live h') = add_mset e (mset (live h))"
    "heap_property lessf h'" by blast
  from h'(3,4) Cons.prems(4) have "nr h' + length es \<le> size_h h'" by simp
  from Cons.IH[OF Cons.prems(1) h'(2,6) this] h'(1,3,4,5) show ?case by simp
qed

lemma extract_all_ok:
  "strict_weak_order lessf \<Longrightarrow> wf_heap h \<Longrightarrow> heap_property lessf h \<Longrightarrow> nr h = k \<Longrightarrow>
   \<exists>out. extract_all lessf k h = Some out \<and> length out = k \<and>
     non_decreasing lessf out \<and> mset out = mset (live h)"
proof (induction k arbitrary: h)
  case 0
  then show ?case by (simp add: non_decreasing_def live_def)
next
  case (Suc k)
  from Suc.prems(4) have ne: "0 < nr h" by simp
  from min_heap_pop_ok[OF swo_asym[OF Suc.prems(1)] swo_trans[OF Suc.prems(1)] Suc.prems(2) ne
      Suc.prems(3)] obtain h' where h':
    "min_heap_pop lessf h = Some (None, h')" "wf_heap h'" "nr h' = nr h - 1"
    "mset (live h') = mset (live h) - {#data h ! 0#}" "heap_property lessf h'" by blast
  from h'(3) Suc.prems(4) have "nr h' = k" by simp
  from Suc.IH[OF Suc.prems(1) h'(2,5) this] obtain out where out:
    "extract_all lessf k h' = Some out" "length out = k" "non_decreasing lessf out"
    "mset out = mset (live h')" by blast
  have ex: "extract_all lessf (Suc k) h = Some (data h ! 0 # out)"
    using h'(1) out(1) by simp
  from Suc.prems(2) ne have "live h \<noteq> []" by (auto simp: live_def wf_heap_def INT_MAX_def)
  then have "data h ! 0 = live h ! 0" "0 < length (live h)" using ne by (simp_all add: live_def)
  then have mem: "data h ! 0 \<in># mset (live h)" by (metis nth_mem set_mset_mset)
  have ms: "mset (data h ! 0 # out) = mset (live h)" using out(4) h'(4) mem by simp
  have "\<forall>y \<in> set out. \<not> lessf y (data h ! 0)"
  proof
    fix y assume "y \<in> set out"
    then have "y \<in># mset (live h')" using out(4) by (metis set_mset_mset)
    with h'(4) have "y \<in># mset (live h)" by (auto dest: in_diffD)
    then have "y \<in> set (live h)" by simp
    with root_min_live[OF Suc.prems(1,2,3)] show "\<not> lessf y (data h ! 0)" by blast
  qed
  with out(3) have "non_decreasing lessf (data h ! 0 # out)" by (simp add: non_decreasing_def)
  with ex ms out(2) show ?case by simp
qed

lemma heap_property_empty: "nr h = 0 \<Longrightarrow> heap_property lessf h"
  by (simp add: heap_property_def)

lemma sorted_extraction_aux:
  "strict_weak_order lessf \<Longrightarrow> wf_heap h \<Longrightarrow> nr h = 0 \<Longrightarrow> length es \<le> size_h h \<Longrightarrow>
   \<exists>out. extract_all lessf (length es) (push_all lessf h es) = Some out \<and>
     length out = length es \<and> non_decreasing lessf out \<and> mset out = mset es"
proof -
  assume swo: "strict_weak_order lessf" and wf: "wf_heap h" and e: "nr h = 0"
    and n: "length es \<le> size_h h"
  from e n have room: "nr h + length es \<le> size_h h" by simp
  have "live h = []" using e by (simp add: live_def)
  with push_all_ok[OF swo wf heap_property_empty[OF e] room] e have p:
    "wf_heap (push_all lessf h es)" "heap_property lessf (push_all lessf h es)"
    "nr (push_all lessf h es) = length es" "mset (live (push_all lessf h es)) = mset es"
    by simp_all
  from extract_all_ok[OF swo p(1,2,3)] p(4) show ?thesis by simp
qed

lemma non_decreasing_unique:
  assumes total: "\<forall>a b. \<not> lessf a b \<longrightarrow> \<not> lessf b a \<longrightarrow> a = b"
  shows "non_decreasing lessf xs \<Longrightarrow> non_decreasing lessf ys \<Longrightarrow> mset xs = mset ys \<Longrightarrow> xs = ys"
proof (induction xs arbitrary: ys)
  case Nil
  then show ?case by simp
next
  case (Cons x xs)
  from Cons.prems(3) obtain y ys' where ys: "ys = y # ys'" by (cases ys) auto
  from Cons.prems(3) have "set (x # xs) = set ys" by (rule mset_eq_setD)
  with ys have xin: "x = y \<or> x \<in> set ys'" and yin: "y = x \<or> y \<in> set xs" by auto
  have "x = y"
  proof (rule ccontr)
    assume ne: "x \<noteq> y"
    with xin Cons.prems(2) ys have "\<not> lessf x y" by (auto simp: non_decreasing_def)
    moreover from ne yin Cons.prems(1) have "\<not> lessf y x" by (auto simp: non_decreasing_def)
    ultimately show False using total ne by blast
  qed
  moreover from this Cons.prems(3) ys have "mset xs = mset ys'" by simp
  moreover from Cons.prems(1) have "non_decreasing lessf xs" by (simp add: non_decreasing_def)
  moreover from Cons.prems(2) ys have "non_decreasing lessf ys'" by (simp add: non_decreasing_def)
  ultimately show ?case using Cons.IH[of ys'] ys by simp
qed

section \<open>Counting the calls\<close>

lemma depth_step: "0 < c \<Longrightarrow> depth c = depth ((c - 1) div 2) + 1"
  by (subst depth.simps) simp

lemma depth_left: "depth (i * 2 + 1) = depth i + 1"
  using depth_step[of "i * 2 + 1"] by simp

lemma depth_right: "depth (i * 2 + 2) = depth i + 1"
  using depth_step[of "i * 2 + 2"] by simp

lemma below_depth: "below pos i \<Longrightarrow> depth pos \<le> depth i"
proof (induction i rule: less_induct)
  case (less i)
  show ?case
  proof (cases "i = pos")
    case True
    then show ?thesis by simp
  next
    case False
    with less.prems have "pos < i" using below_le[of pos i] by simp
    then have lt: "(i - 1) div 2 < i" and i0: "0 < i" by auto
    from False less.prems have "below pos ((i - 1) div 2)" by (metis below_parent)
    from less.IH[OF lt this] depth_step[OF i0] show ?thesis by simp
  qed
qed

lemma descend_depth:
  "depth (descend lessf xs n i) = depth i + descend_less_calls lessf xs n i"
proof (induction lessf xs n i rule: descend.induct)
  case (1 lessf xs n i)
  show ?case
  proof (cases "i * 2 + 2 \<ge> n")
    case True
    then show ?thesis
      by (subst descend.simps, subst descend_less_calls.simps) simp
  next
    case False
    define c where "c = (if lessf (xs ! (i * 2 + 1)) (xs ! (i * 2 + 2)) then i * 2 + 1 else i * 2 + 2)"
    have eq: "descend lessf xs n i = descend lessf xs n c"
      using False by (subst descend.simps) (simp add: c_def)
    have eqc: "descend_less_calls lessf xs n i = 1 + descend_less_calls lessf xs n c"
      using False by (subst descend_less_calls.simps) (simp add: c_def)
    have dc: "depth c = depth i + 1" using depth_left[of i] depth_right[of i] by (simp add: c_def)
    have "depth (descend lessf xs n c) = depth c + descend_less_calls lessf xs n c"
      using "1.IH"[OF False] unfolding c_def .
    with dc show ?thesis unfolding eq eqc by simp
  qed
qed

lemma shift_swp_calls_spec:
  "below pos i \<Longrightarrow> shift_swp_calls pos i calls = Some (calls + (depth i - depth pos))"
proof (induction i arbitrary: calls rule: less_induct)
  case (less i)
  show ?case
  proof (cases "i = pos")
    case True
    then show ?thesis by (subst shift_swp_calls.simps) simp
  next
    case False
    with less.prems have "pos < i" using below_le[of pos i] by simp
    then have lt: "(i - 1) div 2 < i" and i0: "0 < i" by auto
    from False less.prems have bp: "below pos ((i - 1) div 2)" by (metis below_parent)
    from below_depth[OF bp] depth_step[OF i0]
    have "calls + 1 + (depth ((i - 1) div 2) - depth pos) = calls + (depth i - depth pos)"
      by arith
    with less.IH[OF lt bp, of "calls + 1"] False show ?thesis
      by (subst shift_swp_calls.simps) simp
  qed
qed

lemma backtrack_less_calls_returns:
  "below pos i \<Longrightarrow> \<exists>b. backtrack_less_calls lessf xs pos i calls = Some b"
proof (induction i arbitrary: calls rule: less_induct)
  case (less i)
  show ?case
  proof (cases "i \<noteq> pos \<and> lessf (xs ! pos) (xs ! i)")
    case False
    then show ?thesis by (subst backtrack_less_calls.simps) auto
  next
    case True
    with less.prems have "pos < i" using below_le[of pos i] by simp
    then have lt: "(i - 1) div 2 < i" by auto
    from True less.prems have bp: "below pos ((i - 1) div 2)" by (metis below_parent)
    from less.IH[OF lt bp, of "calls + 1"] True show ?thesis
      by (subst backtrack_less_calls.simps) simp
  qed
qed

section \<open>The claims\<close>

text \<open>
  C1 as stated fails for a \<open>less\<close> that is irreflexive and transitive but no strict weak
  order: the sift-up of \<open>push\<close> compares the new element with its ancestors only. With
  pairs ordered componentwise, the valid push of \<open>(2, 2)\<close> onto the heap \<open>(0, 5), (1, 1)\<close>
  leaves \<open>(2, 2)\<close> above \<open>(1, 1)\<close>.
\<close>

theorem push_breaks_heap_property:
  "strict_order pair_less \<and> wf_heap pair_heap \<and> heap_property pair_less pair_heap \<and>
   all_valid pair_less pair_heap [Push (2, 2)] \<and>
   run pair_less pair_heap [Push (2, 2)]
     = Some [\<lparr>data = [(2, 2), (1, 1), (0, 5)], nr = 3, size_h = 3\<rparr>] \<and>
   \<not> heap_property pair_less \<lparr>data = [(2, 2), (1, 1), (0, 5)], nr = 3, size_h = 3\<rparr>"
proof -
  have "strict_order pair_less" by (auto simp: strict_order_def pair_less_def)
  moreover have "wf_heap pair_heap" by (simp add: wf_heap_def INT_MAX_def pair_heap_def)
  moreover have "heap_property pair_less pair_heap" by code_simp
  moreover have "all_valid pair_less pair_heap [Push (2, 2)]" by code_simp
  moreover have "run pair_less pair_heap [Push (2, 2)]
     = Some [\<lparr>data = [(2, 2), (1, 1), (0, 5)], nr = 3, size_h = 3\<rparr>]" by code_simp
  moreover have "\<not> heap_property pair_less \<lparr>data = [(2, 2), (1, 1), (0, 5)], nr = 3, size_h = 3\<rparr>"
    by code_simp
  ultimately show ?thesis by blast
qed

text \<open>
  C1 (as amended): on a well-formed heap (\<open>nr \<le> size \<le>\<close> buffer length, \<open>2 * size \<le> INT_MAX\<close>)
  and for \<open>less\<close> irreflexive and transitive, \<open>heapify_all\<close> establishes the heap property
  from any arrangement; and along every sequence of valid calls (\<open>push\<close> when \<open>nr < size\<close>,
  \<open>pop\<close> and \<open>pop_push\<close> when \<open>nr > 0\<close>, \<open>heapify_all\<close>) that starts from a heap with the heap
  property, every call returns and the heap property holds after each call, provided \<open>less\<close>
  is a strict weak order or the sequence has no \<open>push\<close>.
\<close>

theorem heap_property_preserved:
  "strict_order lessf \<Longrightarrow> wf_heap h \<Longrightarrow>
   (\<exists>h'. min_heapify_all lessf h = Some h' \<and> heap_property lessf h') \<and>
   (heap_property lessf h \<and> all_valid lessf h ops \<and>
    (strict_weak_order lessf \<or> (\<forall>e. Push e \<notin> set ops)) \<longrightarrow>
     (\<exists>hs. run lessf h ops = Some hs \<and> length hs = length ops \<and>
        (\<forall>s \<in> set hs. heap_property lessf s)))"
proof -
  assume so: "strict_order lessf" and wf: "wf_heap h"
  from min_heapify_all_ok[OF so_asym[OF so] so_trans[OF so] wf]
  have "\<exists>h'. min_heapify_all lessf h = Some h' \<and> heap_property lessf h'" by blast
  moreover have "\<exists>hs. run lessf h ops = Some hs \<and> length hs = length ops \<and>
        (\<forall>s \<in> set hs. heap_property lessf s)"
    if "heap_property lessf h" "all_valid lessf h ops"
      "strict_weak_order lessf \<or> (\<forall>e. Push e \<notin> set ops)"
    using run_ok[OF so that(3) wf that(1,2)] by blast
  ultimately show ?thesis by blast
qed

theorem heap_property_preserved_witness:
  "strict_order ((<) :: int \<Rightarrow> int \<Rightarrow> bool) \<and> strict_weak_order ((<) :: int \<Rightarrow> int \<Rightarrow> bool) \<and>
   wf_heap unordered_heap \<and>
   (\<exists>h'. min_heapify_all (<) unordered_heap = Some h' \<and> heap_property (<) h' \<and>
      all_valid (<) h' [Pop, Push 0, Pop_push 4, Heapify_all, Push 7] \<and>
      (\<exists>hs. run (<) h' [Pop, Push 0, Pop_push 4, Heapify_all, Push 7] = Some hs \<and>
         length hs = 5 \<and> list_all (heap_property (<)) hs))"
proof -
  have swo: "strict_weak_order ((<) :: int \<Rightarrow> int \<Rightarrow> bool)"
    by (simp add: strict_weak_order_def)
  have so: "strict_order ((<) :: int \<Rightarrow> int \<Rightarrow> bool)"
    by (simp add: strict_order_def)
  have wf: "wf_heap unordered_heap" by (simp add: wf_heap_def INT_MAX_def unordered_heap_def)
  let ?h = "\<lparr>data = [3, 5, 8, 7, 9, 1 :: int], nr = 5, size_h = 6\<rparr>"
  let ?ops = "[Pop, Push 0, Pop_push 4, Heapify_all, Push 7 :: int heap_op]"
  have h: "min_heapify_all (<) unordered_heap = Some ?h"
    unfolding unordered_heap_def by code_simp
  have wf': "wf_heap ?h" by (simp add: wf_heap_def INT_MAX_def)
  have v: "all_valid (<) ?h ?ops" by code_simp
  from heap_property_preserved[OF so wf, of "[]"] h have hp: "heap_property (<) ?h" by simp
  from heap_property_preserved[OF so wf', of ?ops] hp v swo obtain hs where
    "run (<) ?h ?ops = Some hs" "length hs = 5" "\<forall>s \<in> set hs. heap_property (<) s"
    by auto
  with so swo wf h hp v show ?thesis by (simp add: list_all_iff)
qed

text \<open>
  C2 as stated, slot by slot, fails: from the heap 1, 2, 3 and the element 0, \<open>pop_push\<close>
  leaves 0, 2, 3 and a pop followed by a push leaves 0, 3, 2.
\<close>

theorem pop_push_layout_differs:
  "wf_heap three_heap \<and> 0 < nr three_heap \<and> heap_property (<) three_heap \<and>
   map_option live (min_heap_pop_push (<) three_heap 0) = Some [0, 2, 3] \<and>
   map_option live (pop_then_push (<) three_heap 0) = Some [0, 3, 2] \<and>
   map_option live (min_heap_pop_push (<) three_heap 0)
     \<noteq> map_option live (pop_then_push (<) three_heap 0)"
proof -
  have wf: "wf_heap three_heap" by (simp add: wf_heap_def INT_MAX_def three_heap_def)
  have ne: "0 < nr three_heap" by (simp add: three_heap_def)
  have hp: "heap_property (<) three_heap" unfolding three_heap_def by code_simp
  have a: "map_option live (min_heap_pop_push (<) three_heap 0) = Some [0, 2, 3]" by code_simp
  have b: "map_option live (pop_then_push (<) three_heap 0) = Some [0, 3, 2]" by code_simp
  have "map_option live (min_heap_pop_push (<) three_heap 0)
     \<noteq> map_option live (pop_then_push (<) three_heap 0)" unfolding a b by simp
  with wf ne hp a b show ?thesis by blast
qed

text \<open>
  C2 (as amended): for \<open>less\<close> a strict weak order, a well-formed heap (\<open>nr \<le> size \<le>\<close> buffer
  length, \<open>2 * size \<le> INT_MAX\<close>) with \<open>nr > 0\<close> and the heap property, and any element,
  \<open>pop_push\<close> and a pop followed by a push of the element both return, and yield heaps with
  the same \<open>nr\<close> and \<open>size\<close>, the same multiset of live elements and the heap property,
  whatever the element compares to.
\<close>

theorem pop_push_equivalent:
  "strict_weak_order lessf \<Longrightarrow> wf_heap h \<Longrightarrow> 0 < nr h \<Longrightarrow> heap_property lessf h \<Longrightarrow>
   \<exists>h1 h2. min_heap_pop_push lessf h e = Some h1 \<and> pop_then_push lessf h e = Some h2 \<and>
     nr h1 = nr h \<and> nr h2 = nr h \<and> size_h h1 = size_h h \<and> size_h h2 = size_h h \<and>
     mset (live h1) = mset (live h2) \<and> heap_property lessf h1 \<and> heap_property lessf h2"
proof -
  assume swo: "strict_weak_order lessf" and wf: "wf_heap h" and ne: "0 < nr h"
    and hp: "heap_property lessf h"
  from min_heap_pop_push_ok[OF swo_asym[OF swo] swo_trans[OF swo] wf ne hp, of e] obtain h1 where h1:
    "min_heap_pop_push lessf h e = Some h1" "nr h1 = nr h" "size_h h1 = size_h h"
    "mset (live h1) = add_mset e (mset (live h) - {#data h ! 0#})" "heap_property lessf h1"
    by blast
  from min_heap_pop_ok[OF swo_asym[OF swo] swo_trans[OF swo] wf ne hp] obtain h' where h':
    "min_heap_pop lessf h = Some (None, h')" "wf_heap h'" "nr h' = nr h - 1"
    "size_h h' = size_h h" "mset (live h') = mset (live h) - {#data h ! 0#}"
    "heap_property lessf h'" by blast
  from wf ne h'(3,4) have room: "nr h' < size_h h'" by (auto simp: wf_heap_def INT_MAX_def)
  from min_heap_push_ok[OF swo h'(2) room h'(6), of e] obtain h2 where h2:
    "min_heap_push lessf h' e = (None, h2)" "nr h2 = nr h' + 1" "size_h h2 = size_h h'"
    "mset (live h2) = add_mset e (mset (live h'))" "heap_property lessf h2" by blast
  have "pop_then_push lessf h e = Some h2" using h'(1) h2(1) by (simp add: pop_then_push_def)
  with h1 h2 h' ne show ?thesis by auto
qed

theorem pop_push_equivalent_witness:
  "strict_weak_order ((<) :: int \<Rightarrow> int \<Rightarrow> bool) \<and> wf_heap three_heap \<and> 0 < nr three_heap \<and>
   heap_property (<) three_heap \<and>
   (\<exists>h1 h2. min_heap_pop_push (<) three_heap 0 = Some h1 \<and>
      pop_then_push (<) three_heap 0 = Some h2 \<and>
      nr h1 = nr three_heap \<and> nr h2 = nr three_heap \<and>
      size_h h1 = size_h three_heap \<and> size_h h2 = size_h three_heap \<and>
      mset (live h1) = mset (live h2) \<and> heap_property (<) h1 \<and> heap_property (<) h2)"
proof -
  have swo: "strict_weak_order ((<) :: int \<Rightarrow> int \<Rightarrow> bool)"
    by (simp add: strict_weak_order_def)
  have wf: "wf_heap three_heap" by (simp add: wf_heap_def INT_MAX_def three_heap_def)
  have ne: "0 < nr three_heap" by (simp add: three_heap_def)
  have hp: "heap_property (<) three_heap" unfolding three_heap_def by code_simp
  from pop_push_equivalent[OF swo wf ne hp, of 0] swo wf ne hp show ?thesis by blast
qed

text \<open>
  C3 as stated fails for a \<open>less\<close> that is irreflexive and transitive but no strict weak
  order: with pairs ordered componentwise, pushing \<open>(0, 0)\<close>, \<open>(0, 1)\<close>, \<open>(1, 1)\<close> into an
  empty heap and extracting three times reads \<open>(1, 1)\<close> first and then \<open>(0, 0)\<close>, which is
  less.
\<close>

theorem extraction_unsorted:
  "strict_order pair_less \<and> wf_heap (empty_heap 3 (0, 0 :: nat)) \<and>
   nr (empty_heap 3 (0, 0 :: nat)) = 0 \<and>
   extract_all pair_less 3 (push_all pair_less (empty_heap 3 (0, 0)) [(0, 0), (0, 1), (1, 1)])
     = Some [(1, 1), (0, 0), (0, 1)] \<and>
   \<not> non_decreasing pair_less [(1, 1), (0, 0), (0, 1)]"
proof -
  have "strict_order pair_less" by (auto simp: strict_order_def pair_less_def)
  moreover have "wf_heap (empty_heap 3 (0, 0 :: nat))"
    by (simp add: wf_heap_def INT_MAX_def empty_heap_def)
  moreover have "nr (empty_heap 3 (0, 0 :: nat)) = 0" by (simp add: empty_heap_def)
  moreover have "extract_all pair_less 3
      (push_all pair_less (empty_heap 3 (0, 0)) [(0, 0), (0, 1), (1, 1)])
     = Some [(1, 1), (0, 0), (0, 1)]" by code_simp
  moreover have "\<not> non_decreasing pair_less [(1, 1), (0, 0), (0, 1)]"
    by (simp add: non_decreasing_def pair_less_def)
  ultimately show ?thesis by blast
qed

text \<open>
  C3 (as amended): for \<open>less\<close> a strict weak order, pushing \<open>n \<le> size\<close> elements one at a time
  into a well-formed empty heap (\<open>size \<le>\<close> buffer length, \<open>2 * size \<le> INT_MAX\<close>) and then
  reading index 0 and popping, \<open>n\<close> times, returns \<open>n\<close> values in non-decreasing order (none
  compares strictly less than one read before it), which are the elements pushed.
\<close>

theorem sorted_extraction:
  "strict_weak_order lessf \<Longrightarrow> wf_heap h \<Longrightarrow> nr h = 0 \<Longrightarrow> length es \<le> size_h h \<Longrightarrow>
   \<exists>out. extract_all lessf (length es) (push_all lessf h es) = Some out \<and>
     length out = length es \<and> non_decreasing lessf out \<and> mset out = mset es"
  by (rule sorted_extraction_aux)

theorem sorted_extraction_witness:
  "strict_weak_order ((<) :: int \<Rightarrow> int \<Rightarrow> bool) \<and> wf_heap (empty_heap 6 (0 :: int)) \<and>
   nr (empty_heap 6 (0 :: int)) = 0 \<and>
   length [5, 3, 8, 1, 9, 2 :: int] \<le> size_h (empty_heap 6 (0 :: int)) \<and>
   extract_all (<) (length [5, 3, 8, 1, 9, 2 :: int])
     (push_all (<) (empty_heap 6 0) [5, 3, 8, 1, 9, 2 :: int]) = Some [1, 2, 3, 5, 8, 9] \<and>
   non_decreasing (<) [1, 2, 3, 5, 8, 9 :: int]"
proof -
  have swo: "strict_weak_order ((<) :: int \<Rightarrow> int \<Rightarrow> bool)"
    by (simp add: strict_weak_order_def)
  have wf: "wf_heap (empty_heap 6 (0 :: int))" by (simp add: wf_heap_def INT_MAX_def empty_heap_def)
  have e: "nr (empty_heap 6 (0 :: int)) = 0" by (simp add: empty_heap_def)
  have n: "length [5, 3, 8, 1, 9, 2 :: int] \<le> size_h (empty_heap 6 (0 :: int))"
    by (simp add: empty_heap_def)
  have ev: "extract_all (<) (length [5, 3, 8, 1, 9, 2 :: int])
     (push_all (<) (empty_heap 6 0) [5, 3, 8, 1, 9, 2 :: int]) = Some [1, 2, 3, 5, 8, 9]"
    by code_simp
  from sorted_extraction[OF swo wf e n] ev
  have "non_decreasing (<) [1, 2, 3, 5, 8, 9 :: int]" by simp
  with swo wf e n ev show ?thesis by blast
qed

text \<open>
  C4 as stated fails for a \<open>less\<close> that is irreflexive and transitive but no strict weak
  order: with pairs ordered componentwise, the heap \<open>(1, 6), (0, 7), (5, 5), (0, 5)\<close> has the
  heap property, and its last element is less than the element at index 0.
\<close>

theorem root_not_minimum:
  "strict_order pair_less \<and> wf_heap crossed_heap \<and> 0 < nr crossed_heap \<and>
   heap_property pair_less crossed_heap \<and>
   (0, 5) \<in> set (live crossed_heap) \<and> data crossed_heap ! 0 = (1, 6) \<and>
   pair_less (0, 5) (data crossed_heap ! 0)"
proof -
  have "strict_order pair_less" by (auto simp: strict_order_def pair_less_def)
  moreover have "wf_heap crossed_heap" by (simp add: wf_heap_def INT_MAX_def crossed_heap_def)
  moreover have "heap_property pair_less crossed_heap" by code_simp
  ultimately show ?thesis by (simp add: crossed_heap_def live_def pair_less_def)
qed

text \<open>
  C4 (as amended): on a well-formed heap (\<open>nr \<le> size \<le>\<close> buffer length,
  \<open>2 * size \<le> INT_MAX\<close>) with \<open>nr > 0\<close> and the heap property, for \<open>less\<close> irreflexive and
  transitive, \<open>pop\<close> is: decrement \<open>nr\<close>, copy the element at the last live index into index
  0, repair from position 0; it returns without a warning, and the new live multiset is the
  old one minus one occurrence of the old element at index 0. When \<open>less\<close> is moreover a
  strict weak order, no live element compares strictly less than the element at index 0.
\<close>

theorem pop_removes_minimum:
  "strict_order lessf \<Longrightarrow> wf_heap h \<Longrightarrow> 0 < nr h \<Longrightarrow> heap_property lessf h \<Longrightarrow>
   (strict_weak_order lessf \<longrightarrow> (\<forall>x \<in> set (live h). \<not> lessf x (data h ! 0))) \<and>
   min_heap_pop lessf h =
     map_option (Pair None)
       (min_heapify lessf (h\<lparr>nr := nr h - 1, data := (data h)[0 := data h ! (nr h - 1)]\<rparr>) 0) \<and>
   (\<exists>h'. min_heap_pop lessf h = Some (None, h') \<and> nr h' = nr h - 1 \<and> size_h h' = size_h h \<and>
      mset (live h') = mset (live h) - {#data h ! 0#} \<and> heap_property lessf h')"
proof -
  assume so: "strict_order lessf" and wf: "wf_heap h" and ne: "0 < nr h"
    and hp: "heap_property lessf h"
  have "min_heap_pop lessf h =
     map_option (Pair None)
       (min_heapify lessf (h\<lparr>nr := nr h - 1, data := (data h)[0 := data h ! (nr h - 1)]\<rparr>) 0)"
    using ne by (simp add: min_heap_pop_def Let_def)
  moreover from min_heap_pop_ok[OF so_asym[OF so] so_trans[OF so] wf ne hp]
  have "\<exists>h'. min_heap_pop lessf h = Some (None, h') \<and> nr h' = nr h - 1 \<and> size_h h' = size_h h \<and>
      mset (live h') = mset (live h) - {#data h ! 0#} \<and> heap_property lessf h'" by blast
  moreover have "\<forall>x \<in> set (live h). \<not> lessf x (data h ! 0)" if "strict_weak_order lessf"
    using root_min_live[OF that wf hp] .
  ultimately show ?thesis by blast
qed

theorem pop_removes_minimum_witness:
  "strict_order ((<) :: int \<Rightarrow> int \<Rightarrow> bool) \<and> strict_weak_order ((<) :: int \<Rightarrow> int \<Rightarrow> bool) \<and>
   wf_heap full_heap \<and> 0 < nr full_heap \<and>
   heap_property (<) full_heap \<and> list_all (\<lambda>x. \<not> x < data full_heap ! 0) (live full_heap) \<and>
   (\<exists>h'. min_heap_pop (<) full_heap = Some (None, h') \<and> nr h' = nr full_heap - 1 \<and>
      size_h h' = size_h full_heap \<and>
      mset (live h') = mset (live full_heap) - {#data full_heap ! 0#} \<and>
      heap_property (<) h')"
proof -
  have swo: "strict_weak_order ((<) :: int \<Rightarrow> int \<Rightarrow> bool)"
    by (simp add: strict_weak_order_def)
  have so: "strict_order ((<) :: int \<Rightarrow> int \<Rightarrow> bool)"
    by (simp add: strict_order_def)
  have wf: "wf_heap full_heap" by (simp add: wf_heap_def INT_MAX_def full_heap_def)
  have ne: "0 < nr full_heap" by (simp add: full_heap_def)
  have hp: "heap_property (<) full_heap" unfolding full_heap_def by code_simp
  from pop_removes_minimum[OF so wf ne hp] so swo wf ne hp
  show ?thesis unfolding list_all_iff by blast
qed

text \<open>
  C5: popping when \<open>nr = 0\<close> and pushing when \<open>nr = size\<close> leave \<open>nr\<close>, \<open>size\<close> and
  every buffer slot unchanged and report the violation. No other call reports one: a pop
  or a push that warns has found the heap empty or full and returns it as it was, and
  \<open>heapify\<close>, \<open>heapify_all\<close> and \<open>pop_push\<close> have no warning to return and always return a
  heap.
\<close>

theorem boundary_no_ops:
  "(nr h = 0 \<longrightarrow> min_heap_pop lessf h = Some (Some Popping_an_empty_heap, h)) \<and>
   (nr h = size_h h \<longrightarrow> min_heap_push lessf h e = (Some Pushing_on_a_full_heap, h)) \<and>
   (\<forall>w h'. min_heap_pop lessf h = Some (Some w, h') \<longrightarrow> nr h = 0 \<and> h' = h) \<and>
   (\<forall>w h'. min_heap_push lessf h e = (Some w, h') \<longrightarrow> nr h \<ge> size_h h \<and> h' = h) \<and>
   (\<exists>r. min_heap_pop lessf h = Some r) \<and>
   (\<exists>h'. min_heapify lessf h pos = Some h') \<and>
   (\<exists>h'. min_heapify_all lessf h = Some h') \<and>
   (\<exists>h'. min_heap_pop_push lessf h e = Some h')"
proof -
  have "nr h = 0 \<longrightarrow> min_heap_pop lessf h = Some (Some Popping_an_empty_heap, h)"
    by (simp add: min_heap_pop_def)
  moreover have "nr h = size_h h \<longrightarrow> min_heap_push lessf h e = (Some Pushing_on_a_full_heap, h)"
    by (simp add: min_heap_push_def)
  moreover have "\<forall>w h'. min_heap_pop lessf h = Some (Some w, h') \<longrightarrow> nr h = 0 \<and> h' = h"
    by (auto simp: min_heap_pop_def Let_def split: if_splits)
  moreover have "\<forall>w h'. min_heap_push lessf h e = (Some w, h') \<longrightarrow> nr h \<ge> size_h h \<and> h' = h"
    by (auto simp: min_heap_push_def Let_def split: if_splits)
  moreover have "\<exists>r. min_heap_pop lessf h = Some r"
    using min_heap_pop_returns[of lessf h] by auto
  moreover have "\<exists>h'. min_heapify lessf h pos = Some h'"
    using min_heapify_returns[of lessf h pos] by blast
  moreover have "\<exists>h'. min_heapify_all lessf h = Some h'"
    using min_heapify_all_returns[of lessf h] by blast
  moreover have "\<exists>h'. min_heap_pop_push lessf h e = Some h'"
    using min_heap_pop_push_returns[of lessf h e] by blast
  ultimately show ?thesis by blast
qed

theorem boundary_no_ops_witness:
  "min_heap_pop (<) \<lparr>data = [4, 7 :: int], nr = 0, size_h = 2\<rparr>
     = Some (Some Popping_an_empty_heap, \<lparr>data = [4, 7], nr = 0, size_h = 2\<rparr>) \<and>
   min_heap_push (<) \<lparr>data = [4, 7 :: int], nr = 2, size_h = 2\<rparr> 1
     = (Some Pushing_on_a_full_heap, \<lparr>data = [4, 7], nr = 2, size_h = 2\<rparr>)"
  using boundary_no_ops[of "\<lparr>data = [4, 7 :: int], nr = 0, size_h = 2\<rparr>" "(<)" 1 0]
    boundary_no_ops[of "\<lparr>data = [4, 7 :: int], nr = 2, size_h = 2\<rparr>" "(<)" 1 0]
  by simp

text \<open>
  C6 as stated fails for elements that compare equivalent: three elements of
  equal key come out in the order 2, 1, 0 of their tags after \<open>heapify_all\<close>, and in the
  order 2, 0, 1 after three pushes.
\<close>

theorem bulk_build_differs_on_ties:
  "strict_weak_order key_less \<and> wf_heap tied_heap \<and> wf_heap (empty_heap 3 (0, 0 :: nat)) \<and>
   bulk_sequence key_less tied_heap = Some [(1, 2), (1, 1), (1, 0)] \<and>
   push_sequence key_less (empty_heap 3 (0, 0)) tied_heap = Some [(1, 2), (1, 0), (1, 1)] \<and>
   bulk_sequence key_less tied_heap \<noteq> push_sequence key_less (empty_heap 3 (0, 0)) tied_heap"
proof -
  have swo: "strict_weak_order key_less"
    by (simp add: strict_weak_order_def key_less_def)
  have wf: "wf_heap tied_heap" by (simp add: wf_heap_def INT_MAX_def tied_heap_def)
  have wf0: "wf_heap (empty_heap 3 (0, 0 :: nat))" by (simp add: wf_heap_def INT_MAX_def empty_heap_def)
  have a: "bulk_sequence key_less tied_heap = Some [(1, 2), (1, 1), (1, 0)]"
    by code_simp
  have b: "push_sequence key_less (empty_heap 3 (0, 0)) tied_heap = Some [(1, 2), (1, 0), (1, 1)]"
    by code_simp
  have "bulk_sequence key_less tied_heap
      \<noteq> push_sequence key_less (empty_heap 3 (0, 0)) tied_heap" unfolding a b by simp
  with swo wf wf0 a b show ?thesis by blast
qed

text \<open>
  C6 (as amended): for \<open>less\<close> a strict weak order and any arrangement of \<open>n\<close> elements in the
  buffer of a well-formed heap (\<open>nr \<le> size \<le>\<close> buffer length, \<open>2 * size \<le> INT_MAX\<close>) with
  \<open>nr = n\<close>, \<open>heapify_all\<close> followed by \<open>n\<close> extractions, and pushing the same elements one at
  a time into a well-formed empty heap of capacity at least \<open>n\<close> followed by \<open>n\<close>
  extractions, both return a non-decreasing sequence of the \<open>n\<close> elements; the two
  sequences are the same when \<open>less\<close> is a strict total order.
\<close>

theorem bulk_build_sequences:
  "strict_weak_order lessf \<Longrightarrow> wf_heap h \<Longrightarrow> wf_heap h0 \<Longrightarrow> nr h0 = 0 \<Longrightarrow> nr h \<le> size_h h0 \<Longrightarrow>
   \<exists>out1 out2. bulk_sequence lessf h = Some out1 \<and> push_sequence lessf h0 h = Some out2 \<and>
     length out1 = nr h \<and> length out2 = nr h \<and>
     non_decreasing lessf out1 \<and> non_decreasing lessf out2 \<and>
     mset out1 = mset (live h) \<and> mset out2 = mset (live h) \<and>
     (strict_total_order lessf \<longrightarrow> out1 = out2)"
proof -
  assume swo: "strict_weak_order lessf" and wf: "wf_heap h" and wf0: "wf_heap h0"
    and e: "nr h0 = 0" and n: "nr h \<le> size_h h0"
  from min_heapify_all_ok[OF swo_asym[OF swo] swo_trans[OF swo] wf] obtain hb where hb:
    "min_heapify_all lessf h = Some hb" "wf_heap hb" "nr hb = nr h"
    "mset (live hb) = mset (live h)" "heap_property lessf hb" by blast
  from extract_all_ok[OF swo hb(2,5,3)] obtain out1 where out1:
    "extract_all lessf (nr h) hb = Some out1" "length out1 = nr h"
    "non_decreasing lessf out1" "mset out1 = mset (live hb)" by blast
  have b1: "bulk_sequence lessf h = Some out1" using hb(1) out1(1) by (simp add: bulk_sequence_def)
  from wf have ln: "length (live h) = nr h" by (simp add: live_def wf_heap_def INT_MAX_def)
  with n have n': "length (live h) \<le> size_h h0" by simp
  from sorted_extraction_aux[OF swo wf0 e n'] ln obtain out2 where out2:
    "extract_all lessf (nr h) (push_all lessf h0 (live h)) = Some out2" "length out2 = nr h"
    "non_decreasing lessf out2" "mset out2 = mset (live h)" by auto
  have b2: "push_sequence lessf h0 h = Some out2" using out2(1) by (simp add: push_sequence_def)
  have "out1 = out2" if "strict_total_order lessf"
  proof -
    from that have "\<forall>a b. \<not> lessf a b \<longrightarrow> \<not> lessf b a \<longrightarrow> a = b"
      by (simp add: strict_total_order_def)
    from non_decreasing_unique[OF this out1(3) out2(3)] out1(4) hb(4) out2(4)
    show ?thesis by simp
  qed
  with b1 b2 out1 out2 hb(4) show ?thesis by auto
qed

theorem bulk_build_sequences_witness:
  "strict_weak_order ((<) :: int \<Rightarrow> int \<Rightarrow> bool) \<and> strict_total_order ((<) :: int \<Rightarrow> int \<Rightarrow> bool) \<and>
   wf_heap unordered_heap \<and> wf_heap (empty_heap 6 (0 :: int)) \<and> nr (empty_heap 6 (0 :: int)) = 0 \<and>
   nr unordered_heap \<le> size_h (empty_heap 6 (0 :: int)) \<and>
   bulk_sequence (<) unordered_heap = Some [3, 5, 7, 8, 9] \<and>
   push_sequence (<) (empty_heap 6 0) unordered_heap = Some [3, 5, 7, 8, 9]"
proof -
  have swo: "strict_weak_order ((<) :: int \<Rightarrow> int \<Rightarrow> bool)"
    by (simp add: strict_weak_order_def)
  have sto: "strict_total_order ((<) :: int \<Rightarrow> int \<Rightarrow> bool)"
    by (simp add: strict_total_order_def strict_weak_order_def)
  have wf: "wf_heap unordered_heap" by (simp add: wf_heap_def INT_MAX_def unordered_heap_def)
  have wf0: "wf_heap (empty_heap 6 (0 :: int))" by (simp add: wf_heap_def INT_MAX_def empty_heap_def)
  have e: "nr (empty_heap 6 (0 :: int)) = 0" by (simp add: empty_heap_def)
  have n: "nr unordered_heap \<le> size_h (empty_heap 6 (0 :: int))"
    by (simp add: empty_heap_def unordered_heap_def)
  have a: "bulk_sequence (<) unordered_heap = Some [3, 5, 7, 8, 9]" by code_simp
  from bulk_build_sequences[OF swo wf wf0 e n] sto a
  have "push_sequence (<) (empty_heap 6 0) unordered_heap = Some [3, 5, 7, 8, 9]" by auto
  with swo sto wf wf0 e n a show ?thesis by blast
qed

text \<open>
  C7: on a well-formed heap (\<open>nr \<le> size \<le>\<close> buffer length, \<open>2 * size \<le> INT_MAX\<close>) and for
  \<open>pos < nr\<close>, \<open>heapify\<close> at \<open>pos\<close> returns, and
  \<^item> the descent loop, which moves no element, makes as many \<open>less\<close> calls as it descends
    levels (the step into an only child that may follow it makes none);
  \<^item> the backtracking stops at the final index \<open>j\<close>, on the path from \<open>pos\<close> to the end of the
    descent: the element of \<open>pos\<close> compares less than every element of the path below \<open>j\<close>,
    and not less than the element at \<open>j\<close> unless \<open>j\<close> is \<open>pos\<close>;
  \<^item> the last loop makes as many \<open>swp\<close> calls as there are levels between \<open>pos\<close> and \<open>j\<close>;
  \<^item> afterwards the element that was at \<open>pos\<close> is at \<open>j\<close>, every other element on the path
    from \<open>pos\<close> to \<open>j\<close> is in its parent's slot, and no other slot has changed.
\<close>

theorem heapify_call_counts:
  "wf_heap h \<Longrightarrow> pos < nr h \<Longrightarrow>
   \<exists>j zs b. backtrack lessf (data h) pos (sift_leaf lessf (data h) (nr h) pos) = Some j \<and>
     min_heapify lessf h pos = Some (h\<lparr>data := zs\<rparr>) \<and>
     min_heapify_calls lessf h pos =
       Some (depth (descend lessf (data h) (nr h) pos) - depth pos, b, depth j - depth pos) \<and>
     below pos j \<and> below j (sift_leaf lessf (data h) (nr h) pos) \<and> j < nr h \<and>
     (j \<noteq> pos \<longrightarrow> \<not> lessf (data h ! pos) (data h ! j)) \<and>
     (\<forall>m. below j m \<and> m \<noteq> j \<and> below m (sift_leaf lessf (data h) (nr h) pos)
         \<longrightarrow> lessf (data h ! pos) (data h ! m)) \<and>
     zs ! j = data h ! pos \<and>
     (\<forall>m. below pos m \<and> m \<noteq> pos \<and> below m j \<longrightarrow> zs ! ((m - 1) div 2) = data h ! m) \<and>
     (\<forall>q. \<not> (below pos q \<and> below q j) \<longrightarrow> zs ! q = data h ! q)"
proof -
  assume wf: "wf_heap h" and pos: "pos < nr h"
  from wf have len: "nr h \<le> length (data h)" by (simp add: wf_heap_def)
  define e where "e = sift_leaf lessf (data h) (nr h) pos"
  from min_heapify_analysis[OF pos len, of lessf] obtain j zs where r:
    "backtrack lessf (data h) pos e = Some j"
    "min_heapify lessf h pos = Some (h\<lparr>data := zs\<rparr>)"
    "below pos j" "below j e"
    "j \<noteq> pos \<longrightarrow> \<not> lessf (data h ! pos) (data h ! j)"
    "\<forall>m. below j m \<and> m \<noteq> j \<and> below m e \<longrightarrow> lessf (data h ! pos) (data h ! m)"
    "zs ! j = data h ! pos"
    "\<forall>m. below pos m \<and> m \<noteq> pos \<and> below m j \<longrightarrow> zs ! ((m - 1) div 2) = data h ! m"
    "\<forall>q. \<not> (below pos q \<and> below q j) \<longrightarrow> zs ! q = data h ! q"
    unfolding e_def by blast
  have "e < nr h" unfolding e_def using pos by (rule sift_leaf_lt)
  with r(4) have jn: "j < nr h" using below_le[of j e] by simp
  have pe: "below pos e" unfolding e_def by (rule sift_leaf_below)
  from backtrack_less_calls_returns[OF pe, of lessf "data h" 0] obtain b where
    b: "backtrack_less_calls lessf (data h) pos e 0 = Some b" by blast
  have s: "shift_swp_calls pos j 0 = Some (depth j - depth pos)"
    using shift_swp_calls_spec[OF r(3), of 0] by simp
  have d: "descend_less_calls lessf (data h) (nr h) pos
      = depth (descend lessf (data h) (nr h) pos) - depth pos"
    using descend_depth[of lessf "data h" "nr h" pos] by simp
  have "min_heapify_calls lessf h pos =
       Some (depth (descend lessf (data h) (nr h) pos) - depth pos, b, depth j - depth pos)"
    using r(1) b s d by (simp add: min_heapify_calls_unfold e_def)
  with r jn show ?thesis unfolding e_def by blast
qed

theorem heapify_call_counts_witness:
  "wf_heap unordered_heap \<and> 0 < nr unordered_heap \<and>
   min_heapify (<) unordered_heap 0 = Some \<lparr>data = [3, 5, 8, 7, 9, 1], nr = 5, size_h = 6\<rparr> \<and>
   min_heapify_calls (<) unordered_heap 0 = Some (2, 1, 2) \<and>
   (\<exists>j zs b. backtrack (<) (data unordered_heap) 0
        (sift_leaf (<) (data unordered_heap) (nr unordered_heap) 0) = Some j \<and>
     min_heapify (<) unordered_heap 0 = Some (unordered_heap\<lparr>data := zs\<rparr>) \<and>
     min_heapify_calls (<) unordered_heap 0 =
       Some (depth (descend (<) (data unordered_heap) (nr unordered_heap) 0) - depth 0, b,
             depth j - depth 0) \<and>
     below 0 j \<and> below j (sift_leaf (<) (data unordered_heap) (nr unordered_heap) 0) \<and>
     j < nr unordered_heap \<and>
     (j \<noteq> 0 \<longrightarrow> \<not> data unordered_heap ! 0 < data unordered_heap ! j) \<and>
     (\<forall>m. below j m \<and> m \<noteq> j \<and>
          below m (sift_leaf (<) (data unordered_heap) (nr unordered_heap) 0)
         \<longrightarrow> data unordered_heap ! 0 < data unordered_heap ! m) \<and>
     zs ! j = data unordered_heap ! 0 \<and>
     (\<forall>m. below 0 m \<and> m \<noteq> 0 \<and> below m j \<longrightarrow> zs ! ((m - 1) div 2) = data unordered_heap ! m) \<and>
     (\<forall>q. \<not> (below 0 q \<and> below q j) \<longrightarrow> zs ! q = data unordered_heap ! q))"
proof -
  have wf: "wf_heap unordered_heap" by (simp add: wf_heap_def INT_MAX_def unordered_heap_def)
  have pos: "0 < nr unordered_heap" by (simp add: unordered_heap_def)
  have a: "min_heapify (<) unordered_heap 0 = Some \<lparr>data = [3, 5, 8, 7, 9, 1], nr = 5, size_h = 6\<rparr>"
    by code_simp
  have c: "min_heapify_calls (<) unordered_heap 0 = Some (2, 1, 2)" by code_simp
  from heapify_call_counts[OF wf pos, of "(<)"] wf pos a c show ?thesis by blast
qed

text \<open>
  C8: with capacity 6 and an empty heap (whatever the buffer holds), pushing 5, 3, 8, 1, 9, 2
  leaves 1 at index 0; a pop then leaves \<open>nr = 5\<close> with 2 at index 0; \<open>pop_push 0\<close> then leaves
  0 at index 0 and \<open>nr = 5\<close>, and the heap property holds over the 5 live elements.
\<close>

theorem concrete_scenario:
  "push_all (<) \<lparr>data = [a0, a1, a2, a3, a4, a5], nr = 0, size_h = 6\<rparr> [5, 3, 8, 1, 9, 2 :: int]
     = \<lparr>data = [1, 3, 2, 5, 9, 8], nr = 6, size_h = 6\<rparr> \<and>
   min_heap_pop (<) \<lparr>data = [1, 3, 2, 5, 9, 8 :: int], nr = 6, size_h = 6\<rparr>
     = Some (None, \<lparr>data = [2, 3, 8, 5, 9, 8], nr = 5, size_h = 6\<rparr>) \<and>
   min_heap_pop_push (<) \<lparr>data = [2, 3, 8, 5, 9, 8 :: int], nr = 5, size_h = 6\<rparr> 0
     = Some \<lparr>data = [0, 3, 8, 5, 9, 8], nr = 5, size_h = 6\<rparr> \<and>
   heap_property (<) \<lparr>data = [0, 3, 8, 5, 9, 8 :: int], nr = 5, size_h = 6\<rparr>"
proof -
  have "push_all (<) \<lparr>data = [a0, a1, a2, a3, a4, a5], nr = 0, size_h = 6\<rparr> [5, 3, 8, 1, 9, 2 :: int]
     = \<lparr>data = [1, 3, 2, 5, 9, 8], nr = 6, size_h = 6\<rparr>"
    by (simp add: min_heap_push_def sift_up.simps swp_def)
  moreover have "min_heap_pop (<) \<lparr>data = [1, 3, 2, 5, 9, 8 :: int], nr = 6, size_h = 6\<rparr>
     = Some (None, \<lparr>data = [2, 3, 8, 5, 9, 8], nr = 5, size_h = 6\<rparr>)"
    by code_simp
  moreover have "min_heap_pop_push (<) \<lparr>data = [2, 3, 8, 5, 9, 8 :: int], nr = 5, size_h = 6\<rparr> 0
     = Some \<lparr>data = [0, 3, 8, 5, 9, 8], nr = 5, size_h = 6\<rparr>"
    by code_simp
  moreover have "heap_property (<) \<lparr>data = [0, 3, 8, 5, 9, 8 :: int], nr = 5, size_h = 6\<rparr>"
    by code_simp
  ultimately show ?thesis by blast
qed

theorem concrete_scenario_witness:
  "push_all (<) \<lparr>data = [0, 0, 0, 0, 0, 0], nr = 0, size_h = 6\<rparr> [5, 3, 8, 1, 9, 2 :: int]
     = \<lparr>data = [1, 3, 2, 5, 9, 8], nr = 6, size_h = 6\<rparr>"
  using concrete_scenario[of 0 0 0 0 0 0] by blast

text \<open>
  C9: on a well-formed heap (\<open>nr \<le> size \<le>\<close> buffer length, \<open>2 * size \<le> INT_MAX\<close>), \<open>heapify\<close>
  at \<open>pos < nr\<close> and \<open>heapify_all\<close> return a heap with the same multiset of live elements,
  the same \<open>nr\<close> and \<open>size\<close>, and the same contents in every slot from index \<open>nr\<close> on, for any
  \<open>less\<close>.
\<close>

theorem heapify_permutes_live:
  "wf_heap h \<Longrightarrow>
   (pos < nr h \<longrightarrow>
     (\<exists>h'. min_heapify lessf h pos = Some h' \<and> mset (live h') = mset (live h) \<and>
        nr h' = nr h \<and> size_h h' = size_h h \<and> length (data h') = length (data h) \<and>
        drop (nr h) (data h') = drop (nr h) (data h))) \<and>
   (\<exists>h'. min_heapify_all lessf h = Some h' \<and> mset (live h') = mset (live h) \<and>
      nr h' = nr h \<and> size_h h' = size_h h \<and> length (data h') = length (data h) \<and>
      drop (nr h) (data h') = drop (nr h) (data h))"
proof -
  assume wf: "wf_heap h"
  then have len: "nr h \<le> length (data h)" by (simp add: wf_heap_def)
  from min_heapify_perm[OF len, of lessf pos] obtain zs where zs:
    "min_heapify lessf h pos = Some (h\<lparr>data := zs\<rparr>)"
    "length zs = length (data h)"
    "mset (take (nr h) zs) = mset (take (nr h) (data h))"
    "drop (nr h) zs = drop (nr h) (data h)" by blast
  from heapify_all_loop_perm[OF len, of lessf "int (nr h) div 2 - 1"] obtain ys where ys:
    "min_heapify_all lessf h = Some (h\<lparr>data := ys\<rparr>)"
    "length ys = length (data h)"
    "mset (take (nr h) ys) = mset (take (nr h) (data h))"
    "drop (nr h) ys = drop (nr h) (data h)" unfolding min_heapify_all_def by blast
  from zs ys show ?thesis by (simp add: live_def)
qed

theorem heapify_permutes_live_witness:
  "wf_heap unordered_heap \<and> 0 < nr unordered_heap \<and>
   (\<exists>h'. min_heapify (<) unordered_heap 0 = Some h' \<and>
      mset (live h') = mset (live unordered_heap) \<and>
      nr h' = nr unordered_heap \<and> size_h h' = size_h unordered_heap \<and>
      length (data h') = length (data unordered_heap) \<and>
      drop (nr unordered_heap) (data h') = drop (nr unordered_heap) (data unordered_heap)) \<and>
   (\<exists>h'. min_heapify_all (<) unordered_heap = Some h' \<and>
      mset (live h') = mset (live unordered_heap) \<and>
      nr h' = nr unordered_heap \<and> size_h h' = size_h unordered_heap \<and>
      length (data h') = length (data unordered_heap) \<and>
      drop (nr unordered_heap) (data h') = drop (nr unordered_heap) (data unordered_heap))"
proof -
  have wf: "wf_heap unordered_heap" by (simp add: wf_heap_def INT_MAX_def unordered_heap_def)
  have pos: "0 < nr unordered_heap" by (simp add: unordered_heap_def)
  from heapify_permutes_live[OF wf, of 0 "(<)"] wf pos show ?thesis by blast
qed

text \<open>
  C10: \<open>pop_push\<close> on a heap with \<open>nr = 0\<close> writes the element into slot 0 (when the buffer
  has a slot 0) and changes nothing else: \<open>nr\<close> stays 0, the repair calls neither \<open>less\<close> nor
  \<open>swp\<close>, no other slot changes, no element is live and the heap property holds.
\<close>

theorem pop_push_on_empty:
  "nr h = 0 \<Longrightarrow>
   min_heap_pop_push lessf h e = Some (h\<lparr>data := (data h)[0 := e]\<rparr>) \<and>
   min_heapify_calls lessf (h\<lparr>data := (data h)[0 := e]\<rparr>) 0 = Some (0, 0, 0) \<and>
   (0 < length (data h) \<longrightarrow> (data h)[0 := e] ! 0 = e) \<and>
   (\<forall>k. k \<noteq> 0 \<longrightarrow> (data h)[0 := e] ! k = data h ! k) \<and>
   nr (h\<lparr>data := (data h)[0 := e]\<rparr>) = 0 \<and>
   live (h\<lparr>data := (data h)[0 := e]\<rparr>) = [] \<and>
   heap_property lessf (h\<lparr>data := (data h)[0 := e]\<rparr>)"
proof -
  assume n: "nr h = 0"
  have d: "descend lessf xs 0 0 = 0" for xs :: "'a list"
    by (subst descend.simps) simp
  have dc: "descend_less_calls lessf xs 0 0 = 0" for xs :: "'a list"
    by (subst descend_less_calls.simps) simp
  have b: "backtrack lessf xs 0 0 = Some 0" for xs :: "'a list"
    by (subst backtrack.simps) simp
  have bc: "backtrack_less_calls lessf xs 0 0 0 = Some 0" for xs :: "'a list"
    by (subst backtrack_less_calls.simps) simp
  have s: "shift xs 0 0 0 = Some xs" for xs :: "'a list"
    by (subst shift.simps) simp
  have sc: "shift_swp_calls 0 0 0 = Some 0"
    by (subst shift_swp_calls.simps) simp
  have "min_heap_pop_push lessf h e = Some (h\<lparr>data := (data h)[0 := e]\<rparr>)"
    using n by (simp add: min_heap_pop_push_def min_heapify_def d b s)
  moreover have "min_heapify_calls lessf (h\<lparr>data := (data h)[0 := e]\<rparr>) 0 = Some (0, 0, 0)"
    using n by (simp add: min_heapify_calls_def d dc b bc sc)
  moreover have "heap_property lessf (h\<lparr>data := (data h)[0 := e]\<rparr>)"
    using n by (simp add: heap_property_def)
  ultimately show ?thesis using n by (simp add: live_def)
qed

theorem pop_push_on_empty_witness:
  "min_heap_pop_push (<) \<lparr>data = [4, 7 :: int], nr = 0, size_h = 2\<rparr> 9
     = Some \<lparr>data = [9, 7], nr = 0, size_h = 2\<rparr> \<and>
   min_heapify_calls (<) \<lparr>data = [9, 7 :: int], nr = 0, size_h = 2\<rparr> 0 = Some (0, 0, 0)"
  using pop_push_on_empty[of "\<lparr>data = [4, 7 :: int], nr = 0, size_h = 2\<rparr>" "(<)" 9]
  by simp

end
